theory Spec2Isabelle
  imports Main "HOL-Library.Word"
begin

section \<open>Image addition kernels of imgadd.c\<close>

text \<open>
  The file imgadd.c adds two gray images pixel by pixel. It has a saturating kernel
  (\<open>img_add_kr\<close>, 8-bit output) and a widening kernel (\<open>img_add\<close>, 16-bit output),
  each in three variants: \<open>_nsu\<close> (plain loop), \<open>_sse\<close> (128-bit vectors) and
  \<open>_avx\<close> (256-bit vectors).
\<close>

subsection \<open>Data model\<close>

type_synonym u8 = "8 word"
type_synonym u16 = "16 word"
type_synonym u32 = "32 word"

text \<open>
  The three buffers the pointers \<open>A\<close>, \<open>B\<close> and \<open>C\<close> point to. They are three
  separate objects; the length of each list is the capacity of the buffer. The element
  type of \<open>C\<close> is \<open>unsigned char\<close> for the saturating kernel and \<open>unsigned short\<close>
  for the widening one.
\<close>

record 'c bufs =
  bufA :: "u8 list"
  bufB :: "u8 list"
  bufC :: "'c list"

text \<open>
  An access outside a buffer is undefined behaviour in C. Every read and every write of
  the model is checked against the capacity, and the first access out of range ends the
  run with \<open>OutOfBounds\<close>.
\<close>

datatype fault = OutOfBounds

subsection \<open>The plain loops\<close>

text \<open>
  \<^verbatim>\<open>sum = A[i] + B[i]; if (sum > 255) sum = 255; C[i] = sum;\<close>
  The operands are promoted to 32 bits before the addition, \<open>sum\<close> is an
  \<open>unsigned int\<close>, and the store converts it to \<open>unsigned char\<close>.
\<close>

definition kr_nsu_pixel :: "u8 \<Rightarrow> u8 \<Rightarrow> u8" where
  "kr_nsu_pixel a b =
     (let sum = (ucast a :: u32) + ucast b;
          sum = (if sum > 255 then 255 else sum)
      in ucast sum)"

function kr_nsu_loop :: "u32 \<Rightarrow> u32 \<Rightarrow> u8 bufs \<Rightarrow> fault + u8 bufs" where
  "kr_nsu_loop i npixels s =
     (if i < npixels then
        (if unat i < length (bufA s) \<and> unat i < length (bufB s) \<and> unat i < length (bufC s)
         then kr_nsu_loop (i + 1) npixels
                (s\<lparr>bufC := (bufC s)[unat i := kr_nsu_pixel (bufA s ! unat i) (bufB s ! unat i)]\<rparr>)
         else Inl OutOfBounds)
      else Inr s)"
  by pat_completeness auto
termination
proof (relation "measure (\<lambda>(i, npixels, s). unat npixels - unat i)")
  fix i npixels :: u32
  assume "i < npixels"
  then have "unat npixels - unat (i + 1) < unat npixels - unat i"
    by unat_arith
  then show "((i + 1, npixels, s'), (i, npixels, s)) \<in> measure (\<lambda>(i, npixels, s). unat npixels - unat i)"
    for s s' :: "'x bufs"
    by simp
qed simp

declare kr_nsu_loop.simps [simp del]

definition img_add_kr_nsu :: "u32 \<Rightarrow> u32 \<Rightarrow> u8 bufs \<Rightarrow> fault + u8 bufs" where
  "img_add_kr_nsu width height s = (let npixels = width * height in kr_nsu_loop 0 npixels s)"

text \<open>
  \<^verbatim>\<open>C[i] = A[i] + B[i];\<close> with \<open>C\<close> an \<open>unsigned short\<close> buffer: the sum is
  computed in 32 bits and the store converts it to 16 bits.
\<close>

definition nsu_pixel :: "u8 \<Rightarrow> u8 \<Rightarrow> u16" where
  "nsu_pixel a b = ucast ((ucast a :: u32) + ucast b)"

function nsu_loop :: "u32 \<Rightarrow> u32 \<Rightarrow> u16 bufs \<Rightarrow> fault + u16 bufs" where
  "nsu_loop i npixels s =
     (if i < npixels then
        (if unat i < length (bufA s) \<and> unat i < length (bufB s) \<and> unat i < length (bufC s)
         then nsu_loop (i + 1) npixels
                (s\<lparr>bufC := (bufC s)[unat i := nsu_pixel (bufA s ! unat i) (bufB s ! unat i)]\<rparr>)
         else Inl OutOfBounds)
      else Inr s)"
  by pat_completeness auto
termination
proof (relation "measure (\<lambda>(i, npixels, s). unat npixels - unat i)")
  fix i npixels :: u32
  assume "i < npixels"
  then have "unat npixels - unat (i + 1) < unat npixels - unat i"
    by unat_arith
  then show "((i + 1, npixels, s'), (i, npixels, s)) \<in> measure (\<lambda>(i, npixels, s). unat npixels - unat i)"
    for s s' :: "'x bufs"
    by simp
qed simp

declare nsu_loop.simps [simp del]

definition img_add_nsu :: "u32 \<Rightarrow> u32 \<Rightarrow> u16 bufs \<Rightarrow> fault + u16 bufs" where
  "img_add_nsu width height s = (let npixels = width * height in nsu_loop 0 npixels s)"

subsection \<open>Vector registers and the intrinsics\<close>

text \<open>
  A vector register (\<open>__m128i\<close>, \<open>__m256i\<close>) is modelled as the list of its bytes,
  16 or 32 of them, byte \<open>k\<close> of the list being bits \<open>8k .. 8k+7\<close> of the register, which
  is also the order in which an unaligned load or store moves them from or to memory.
  The intrinsics are not code of imgadd.c: they come from the compiler's headers
  \<open>smmintrin.h\<close> and \<open>immintrin.h\<close> and each stands for one x86 instruction. The
  definitions below follow the operation the instruction set reference gives for each:
  \<^item> \<open>_mm_loadu_si128\<close>, \<open>_mm256_loadu_si256\<close>: 16 or 32 consecutive bytes of memory;
  \<^item> \<open>_mm_storeu_si128\<close>, \<open>_mm256_storeu_si256\<close>: the register's bytes to consecutive
    memory (\<open>store_block\<close> at the pointer's offset);
  \<^item> \<open>_mm_adds_epu8\<close>, \<open>_mm_adds_epu16\<close> and the 256-bit ones: unsigned saturating
    addition, lane by lane;
  \<^item> \<open>_mm_unpacklo_epi8 a b\<close>: \<open>a0 b0 a1 b1 .. a7 b7\<close>; \<open>_mm_unpackhi_epi8 a b\<close>:
    \<open>a8 b8 .. a15 b15\<close>;
  \<^item> \<open>_mm256_unpacklo_epi8\<close>, \<open>_mm256_unpackhi_epi8\<close>: the 128-bit operation applied to
    bits 127..0 of both operands for bits 127..0 of the result, and to bits 255..128 for
    bits 255..128.
\<close>

type_synonym m128i = "u8 list"
type_synonym m256i = "u8 list"

text \<open>Loading \<open>n\<close> consecutive elements at offset \<open>i\<close>, and storing a block at offset \<open>j\<close>.\<close>

definition load_block :: "nat \<Rightarrow> 'a list \<Rightarrow> nat \<Rightarrow> 'a list" where
  "load_block n buf i = take n (drop i buf)"

definition store_block :: "'a list \<Rightarrow> nat \<Rightarrow> 'a list \<Rightarrow> 'a list" where
  "store_block buf j blk = take j buf @ blk @ drop (j + length blk) buf"

definition mm_loadu_si128 :: "u8 list \<Rightarrow> nat \<Rightarrow> m128i" where
  "mm_loadu_si128 buf i = load_block 16 buf i"

definition mm256_loadu_si256 :: "u8 list \<Rightarrow> nat \<Rightarrow> m256i" where
  "mm256_loadu_si256 buf i = load_block 32 buf i"

definition mm_setzero_si128 :: m128i where
  "mm_setzero_si128 = replicate 16 0"

definition mm256_setzero_si256 :: m256i where
  "mm256_setzero_si256 = replicate 32 0"

text \<open>Unsigned saturating addition of one lane, 8 and 16 bits wide.\<close>

definition adds_u8 :: "u8 \<Rightarrow> u8 \<Rightarrow> u8" where
  "adds_u8 a b = (if unat a + unat b > 255 then 255 else a + b)"

definition adds_u16 :: "u16 \<Rightarrow> u16 \<Rightarrow> u16" where
  "adds_u16 a b = (if unat a + unat b > 65535 then 65535 else a + b)"

definition mm_adds_epu8 :: "m128i \<Rightarrow> m128i \<Rightarrow> m128i" where
  "mm_adds_epu8 a b = map2 adds_u8 a b"

definition mm256_adds_epu8 :: "m256i \<Rightarrow> m256i \<Rightarrow> m256i" where
  "mm256_adds_epu8 a b = map2 adds_u8 a b"

text \<open>
  The 16-bit lanes of a register: lane \<open>k\<close> is made of bytes \<open>2k\<close> (low) and \<open>2k+1\<close>
  (high). A store through an \<open>unsigned short\<close> pointer writes these lanes as consecutive
  elements.
\<close>

fun lanes_u16 :: "u8 list \<Rightarrow> u16 list" where
  "lanes_u16 (lo # hi # bs) = (word_cat hi lo :: u16) # lanes_u16 bs"
| "lanes_u16 bs = []"

fun bytes_u16 :: "u16 list \<Rightarrow> u8 list" where
  "bytes_u16 [] = []"
| "bytes_u16 (w # ws) = ucast w # ucast (drop_bit 8 w) # bytes_u16 ws"

definition mm_adds_epu16 :: "m128i \<Rightarrow> m128i \<Rightarrow> m128i" where
  "mm_adds_epu16 a b = bytes_u16 (map2 adds_u16 (lanes_u16 a) (lanes_u16 b))"

definition mm256_adds_epu16 :: "m256i \<Rightarrow> m256i \<Rightarrow> m256i" where
  "mm256_adds_epu16 a b = bytes_u16 (map2 adds_u16 (lanes_u16 a) (lanes_u16 b))"

text \<open>
  Byte interleaving. The 128-bit unpack takes the low (or high) 8 bytes of both operands.
  The 256-bit unpack does the same separately in each 128-bit half of the register: its
  result holds bytes 0..7 and 16..23 (low) or 8..15 and 24..31 (high) of the operands.
\<close>

fun interleave :: "'a list \<Rightarrow> 'a list \<Rightarrow> 'a list" where
  "interleave (x # xs) (y # ys) = x # y # interleave xs ys"
| "interleave xs ys = []"

definition mm_unpacklo_epi8 :: "m128i \<Rightarrow> m128i \<Rightarrow> m128i" where
  "mm_unpacklo_epi8 a b = interleave (take 8 a) (take 8 b)"

definition mm_unpackhi_epi8 :: "m128i \<Rightarrow> m128i \<Rightarrow> m128i" where
  "mm_unpackhi_epi8 a b = interleave (take 8 (drop 8 a)) (take 8 (drop 8 b))"

definition mm256_unpacklo_epi8 :: "m256i \<Rightarrow> m256i \<Rightarrow> m256i" where
  "mm256_unpacklo_epi8 a b =
     mm_unpacklo_epi8 (take 16 a) (take 16 b) @ mm_unpacklo_epi8 (drop 16 a) (drop 16 b)"

definition mm256_unpackhi_epi8 :: "m256i \<Rightarrow> m256i \<Rightarrow> m256i" where
  "mm256_unpackhi_epi8 a b =
     mm_unpackhi_epi8 (take 16 a) (take 16 b) @ mm_unpackhi_epi8 (drop 16 a) (drop 16 b)"

subsection \<open>The vector loops\<close>

text \<open>
  The loops advance \<open>i\<close> by \<open>ppl\<close>, the number of pixels per register: 16 in the
  128-bit loops and 32 in the 256-bit ones. The counter is an \<open>unsigned int\<close>, so
  \<open>i += ppl\<close> can wrap around before \<open>i < npixels\<close> fails; the loops are therefore
  partial functions, and \<open>None\<close> stands for a run that never ends. One pass of a loop
  body is a function of its own: it returns the state after the pass, or \<open>OutOfBounds\<close>
  when a load or a store of the pass leaves its buffer.
\<close>

definition kr_sse_body :: "u32 \<Rightarrow> u8 bufs \<Rightarrow> fault + u8 bufs" where
  "kr_sse_body i s =
     (if unat i + 16 \<le> length (bufA s) \<and> unat i + 16 \<le> length (bufB s)
         \<and> unat i + 16 \<le> length (bufC s)
      then
        let X = mm_loadu_si128 (bufA s) (unat i);
            Y = mm_loadu_si128 (bufB s) (unat i);
            S = mm_adds_epu8 X Y
        in Inr (s\<lparr>bufC := store_block (bufC s) (unat i) S\<rparr>)
      else Inl OutOfBounds)"

partial_function (option) kr_sse_loop :: "u32 \<Rightarrow> u32 \<Rightarrow> u8 bufs \<Rightarrow> (fault + u8 bufs) option" where
  "kr_sse_loop i npixels s =
     (if i < npixels then
        (case kr_sse_body i s of
           Inl e \<Rightarrow> Some (Inl e)
         | Inr s' \<Rightarrow> kr_sse_loop (i + 16) npixels s')
      else Some (Inr s))"

definition img_add_kr_sse :: "u32 \<Rightarrow> u32 \<Rightarrow> u8 bufs \<Rightarrow> (fault + u8 bufs) option" where
  "img_add_kr_sse width height s = (let npixels = width * height in kr_sse_loop 0 npixels s)"

definition kr_avx_body :: "u32 \<Rightarrow> u8 bufs \<Rightarrow> fault + u8 bufs" where
  "kr_avx_body i s =
     (if unat i + 32 \<le> length (bufA s) \<and> unat i + 32 \<le> length (bufB s)
         \<and> unat i + 32 \<le> length (bufC s)
      then
        let X = mm256_loadu_si256 (bufA s) (unat i);
            Y = mm256_loadu_si256 (bufB s) (unat i);
            S = mm256_adds_epu8 X Y
        in Inr (s\<lparr>bufC := store_block (bufC s) (unat i) S\<rparr>)
      else Inl OutOfBounds)"

partial_function (option) kr_avx_loop :: "u32 \<Rightarrow> u32 \<Rightarrow> u8 bufs \<Rightarrow> (fault + u8 bufs) option" where
  "kr_avx_loop i npixels s =
     (if i < npixels then
        (case kr_avx_body i s of
           Inl e \<Rightarrow> Some (Inl e)
         | Inr s' \<Rightarrow> kr_avx_loop (i + 32) npixels s')
      else Some (Inr s))"

definition img_add_kr_avx :: "u32 \<Rightarrow> u32 \<Rightarrow> u8 bufs \<Rightarrow> (fault + u8 bufs) option" where
  "img_add_kr_avx width height s = (let npixels = width * height in kr_avx_loop 0 npixels s)"

text \<open>
  The widening loops keep a second counter \<open>j\<close> for the output position and store the
  two halves \<open>SL\<close> and \<open>SH\<close> one after the other, \<open>pps\<close> elements each (8 in the
  128-bit loop, 16 in the 256-bit one). \<open>C\<close> is an \<open>unsigned short\<close> buffer, so a store
  at \<open>C + j\<close> writes the 16-bit lanes of the register to \<open>C[j]\<close>, \<open>C[j+1]\<close>, ..
\<close>

definition sse_body :: "u32 \<Rightarrow> u32 \<Rightarrow> u16 bufs \<Rightarrow> fault + u32 \<times> u16 bufs" where
  "sse_body i j s =
     (if unat i + 16 \<le> length (bufA s) \<and> unat i + 16 \<le> length (bufB s) then
        let Zero = mm_setzero_si128;
            X = mm_loadu_si128 (bufA s) (unat i);
            XL = mm_unpacklo_epi8 X Zero;
            XH = mm_unpackhi_epi8 X Zero;
            Y = mm_loadu_si128 (bufB s) (unat i);
            YL = mm_unpacklo_epi8 Y Zero;
            YH = mm_unpackhi_epi8 Y Zero;
            SL = mm_adds_epu16 XL YL;
            SH = mm_adds_epu16 XH YH
        in if unat j + 8 \<le> length (bufC s) then
             let C1 = store_block (bufC s) (unat j) (lanes_u16 SL);
                 j1 = j + 8
             in if unat j1 + 8 \<le> length C1 then
                  let C2 = store_block C1 (unat j1) (lanes_u16 SH);
                      j2 = j1 + 8
                  in Inr (j2, s\<lparr>bufC := C2\<rparr>)
                else Inl OutOfBounds
           else Inl OutOfBounds
      else Inl OutOfBounds)"

partial_function (option) sse_loop ::
  "u32 \<Rightarrow> u32 \<Rightarrow> u32 \<Rightarrow> u16 bufs \<Rightarrow> (fault + u16 bufs) option" where
  "sse_loop i j npixels s =
     (if i < npixels then
        (case sse_body i j s of
           Inl e \<Rightarrow> Some (Inl e)
         | Inr (j', s') \<Rightarrow> sse_loop (i + 16) j' npixels s')
      else Some (Inr s))"

definition img_add_sse :: "u32 \<Rightarrow> u32 \<Rightarrow> u16 bufs \<Rightarrow> (fault + u16 bufs) option" where
  "img_add_sse width height s = (let j = 0; npixels = width * height in sse_loop 0 j npixels s)"

definition avx_body :: "u32 \<Rightarrow> u32 \<Rightarrow> u16 bufs \<Rightarrow> fault + u32 \<times> u16 bufs" where
  "avx_body i j s =
     (if unat i + 32 \<le> length (bufA s) \<and> unat i + 32 \<le> length (bufB s) then
        let Zero = mm256_setzero_si256;
            X = mm256_loadu_si256 (bufA s) (unat i);
            XL = mm256_unpacklo_epi8 X Zero;
            XH = mm256_unpackhi_epi8 X Zero;
            Y = mm256_loadu_si256 (bufB s) (unat i);
            YL = mm256_unpacklo_epi8 Y Zero;
            YH = mm256_unpackhi_epi8 Y Zero;
            SL = mm256_adds_epu16 XL YL;
            SH = mm256_adds_epu16 XH YH
        in if unat j + 16 \<le> length (bufC s) then
             let C1 = store_block (bufC s) (unat j) (lanes_u16 SL);
                 j1 = j + 16
             in if unat j1 + 16 \<le> length C1 then
                  let C2 = store_block C1 (unat j1) (lanes_u16 SH);
                      j2 = j1 + 16
                  in Inr (j2, s\<lparr>bufC := C2\<rparr>)
                else Inl OutOfBounds
           else Inl OutOfBounds
      else Inl OutOfBounds)"

partial_function (option) avx_loop ::
  "u32 \<Rightarrow> u32 \<Rightarrow> u32 \<Rightarrow> u16 bufs \<Rightarrow> (fault + u16 bufs) option" where
  "avx_loop i j npixels s =
     (if i < npixels then
        (case avx_body i j s of
           Inl e \<Rightarrow> Some (Inl e)
         | Inr (j', s') \<Rightarrow> avx_loop (i + 32) j' npixels s')
      else Some (Inr s))"

definition img_add_avx :: "u32 \<Rightarrow> u32 \<Rightarrow> u16 bufs \<Rightarrow> (fault + u16 bufs) option" where
  "img_add_avx width height s = (let j = 0; npixels = width * height in avx_loop 0 j npixels s)"

subsection \<open>Pixelwise results\<close>

text \<open>
  \<open>range_sum f i n s\<close> is the state \<open>s\<close> with \<open>C[k] = f A[k] B[k]\<close> for every
  \<open>k\<close> with \<open>i \<le> k < n\<close> inside \<open>C\<close>, and everything else as it was. It is
  used to state what a loop started at \<open>i\<close> leaves behind.
\<close>

definition range_sum :: "(u8 \<Rightarrow> u8 \<Rightarrow> 'c) \<Rightarrow> nat \<Rightarrow> nat \<Rightarrow> 'c bufs \<Rightarrow> 'c bufs" where
  "range_sum f i n s =
     s\<lparr>bufC := map (\<lambda>k. if i \<le> k \<and> k < n then f (bufA s ! k) (bufB s ! k) else bufC s ! k)
                    [0..<length (bufC s)]\<rparr>"

subsection \<open>A test image\<close>

text \<open>
  A row of 32 pixels with the values 0 to 31, and the same values in the order
  0..7, 16..23, 8..15, 24..31.
\<close>

definition ramp32 :: "'a::len word list" where
  "ramp32 = [0, 1, 2, 3, 4, 5, 6, 7, 8, 9, 10, 11, 12, 13, 14, 15,
       16, 17, 18, 19, 20, 21, 22, 23, 24, 25, 26, 27, 28, 29, 30, 31]"

definition ramp32_avx :: "'a::len word list" where
  "ramp32_avx = [0, 1, 2, 3, 4, 5, 6, 7, 16, 17, 18, 19, 20, 21, 22, 23,
       8, 9, 10, 11, 12, 13, 14, 15, 24, 25, 26, 27, 28, 29, 30, 31]"

subsection \<open>Helpers for the statements\<close>




definition big_image :: "'c \<Rightarrow> 'c bufs" where
  "big_image c = \<lparr>bufA = replicate 4294967296 1, bufB = replicate 4294967296 2,
                  bufC = replicate 4294967296 c\<rparr>"

declare kr_sse_loop.simps [code]
declare kr_avx_loop.simps [code]
declare sse_loop.simps [code]
declare avx_loop.simps [code]

section \<open>Supporting lemmas\<close>

subsection \<open>One pixel\<close>

lemma unat_u8_bound: "unat (a :: u8) < 256"
  using unsigned_less [of a] by simp

lemma unat_promoted_sum: "unat ((ucast (a :: u8) :: u32) + ucast (b :: u8)) = unat a + unat b"
proof -
  have "unat (ucast a :: u32) = unat a" "unat (ucast b :: u32) = unat b"
    using unat_u8_bound [of a] unat_u8_bound [of b]
    by (simp_all add: unsigned_ucast_eq take_bit_nat_eq_self)
  moreover have "unat a + unat b < 2 ^ 32"
    using unat_u8_bound [of a] unat_u8_bound [of b] by simp
  ultimately show ?thesis
    by (simp add: unat_word_ariths)
qed

lemma unat_kr_nsu_pixel: "unat (kr_nsu_pixel a b) = min (unat a + unat b) 255"
proof (cases "unat a + unat b > 255")
  case True
  then have "(ucast a :: u32) + ucast b > 255"
    by (simp add: word_less_nat_alt unat_promoted_sum)
  then show ?thesis using True by (simp add: kr_nsu_pixel_def)
next
  case False
  then have n: "\<not> (ucast a :: u32) + ucast b > 255"
    by (simp add: word_less_nat_alt unat_promoted_sum)
  have "unat (ucast ((ucast a :: u32) + ucast b) :: u8) = unat a + unat b"
    using False by (simp add: unsigned_ucast_eq unat_promoted_sum take_bit_nat_eq_self)
  then show ?thesis using False n by (simp add: kr_nsu_pixel_def)
qed

lemma unat_nsu_pixel: "unat (nsu_pixel a b) = unat a + unat b"
  using unat_u8_bound [of a] unat_u8_bound [of b]
  by (simp add: nsu_pixel_def unsigned_ucast_eq unat_promoted_sum take_bit_nat_eq_self)

lemma adds_u8_eq: "adds_u8 a b = kr_nsu_pixel a b"
proof -
  have "unat (adds_u8 a b) = min (unat a + unat b) 255"
    using unat_u8_bound [of a] unat_u8_bound [of b]
    by (auto simp: adds_u8_def unat_word_ariths)
  then show ?thesis
    by (simp add: word_unat_eq_iff unat_kr_nsu_pixel)
qed

lemma adds_u16_ucast: "adds_u16 (ucast (a :: u8)) (ucast (b :: u8)) = nsu_pixel a b"
proof -
  have ca: "unat (ucast a :: u16) = unat a" and cb: "unat (ucast b :: u16) = unat b"
    using unat_u8_bound [of a] unat_u8_bound [of b]
    by (simp_all add: unsigned_ucast_eq take_bit_nat_eq_self)
  have "unat (adds_u16 (ucast a) (ucast b)) = unat a + unat b"
    using unat_u8_bound [of a] unat_u8_bound [of b]
    by (simp add: adds_u16_def ca cb unat_word_ariths)
  then show ?thesis
    by (simp add: word_unat_eq_iff unat_nsu_pixel)
qed

subsection \<open>Lanes of a register\<close>

lemma lanes_u16_interleave_zero:
  "length xs \<le> n \<Longrightarrow> lanes_u16 (interleave xs (replicate n 0)) = map ucast xs"
proof (induction xs arbitrary: n)
  case Nil
  then show ?case by simp
next
  case (Cons x xs)
  then obtain m where "n = Suc m" by (cases n) auto
  then show ?case using Cons by simp
qed

lemma word_cat_bytes: "(word_cat (ucast (drop_bit 8 w) :: u8) (ucast w :: u8) :: u16) = w"
  by (rule bit_word_eqI) (auto simp: bit_word_cat_iff bit_ucast_iff bit_drop_bit_eq not_less)

lemma lanes_u16_bytes_u16: "lanes_u16 (bytes_u16 ws) = ws"
  by (induction ws) (simp_all add: word_cat_bytes)

lemma map2_adds_u16_ucast:
  "map2 adds_u16 (map ucast xs) (map ucast ys) = map2 nsu_pixel (xs :: u8 list) (ys :: u8 list)"
  by (auto simp: zip_map_map adds_u16_ucast)

lemma map2_append:
  "length xs = length ys \<Longrightarrow> map2 f xs ys @ map2 f xs' ys' = map2 f (xs @ xs') (ys @ ys')"
  by simp

lemma lanes_sum_lo:
  "lanes_u16 (mm_adds_epu16 (mm_unpacklo_epi8 X mm_setzero_si128)
                            (mm_unpacklo_epi8 Y mm_setzero_si128))
     = map2 nsu_pixel (take 8 X) (take 8 Y)"
proof -
  have "lanes_u16 (mm_unpacklo_epi8 Z mm_setzero_si128) = map ucast (take 8 Z)" for Z
    using lanes_u16_interleave_zero [of "take 8 Z" 8]
    by (simp add: mm_unpacklo_epi8_def mm_setzero_si128_def)
  then show ?thesis
    by (simp only: mm_adds_epu16_def lanes_u16_bytes_u16 map2_adds_u16_ucast)
qed

lemma lanes_sum_hi:
  "lanes_u16 (mm_adds_epu16 (mm_unpackhi_epi8 X mm_setzero_si128)
                            (mm_unpackhi_epi8 Y mm_setzero_si128))
     = map2 nsu_pixel (take 8 (drop 8 X)) (take 8 (drop 8 Y))"
proof -
  have "lanes_u16 (mm_unpackhi_epi8 Z mm_setzero_si128) = map ucast (take 8 (drop 8 Z))" for Z
    using lanes_u16_interleave_zero [of "take 8 (drop 8 Z)" 8]
    by (simp add: mm_unpackhi_epi8_def mm_setzero_si128_def)
  then show ?thesis
    by (simp only: mm_adds_epu16_def lanes_u16_bytes_u16 map2_adds_u16_ucast)
qed

lemma map2_halves:
  assumes "length X = 16" "length Y = 16"
  shows "map2 f (take 8 X) (take 8 Y) @ map2 f (take 8 (drop 8 X)) (take 8 (drop 8 Y))
           = map2 f X Y"
proof -
  have "take 8 (drop 8 X) = drop 8 X" "take 8 (drop 8 Y) = drop 8 Y"
    using assms by simp_all
  moreover have "map2 f (take 8 X) (take 8 Y) @ map2 f (drop 8 X) (drop 8 Y)
                   = map2 f (take 8 X @ drop 8 X) (take 8 Y @ drop 8 Y)"
    using assms by (intro map2_append) simp
  ultimately show ?thesis by simp
qed

subsection \<open>Blocks of a buffer\<close>

lemma length_load_block: "i + n \<le> length buf \<Longrightarrow> length (load_block n buf i) = n"
  by (simp add: load_block_def)

lemma nth_load_block: "k < n \<Longrightarrow> i + n \<le> length buf \<Longrightarrow> load_block n buf i ! k = buf ! (i + k)"
  by (simp add: load_block_def)

lemma length_store_block:
  "j + length blk \<le> length buf \<Longrightarrow> length (store_block buf j blk) = length buf"
  by (simp add: store_block_def)

lemma nth_store_block:
  assumes "j + length blk \<le> length buf"
  shows "store_block buf j blk ! k = (if j \<le> k \<and> k < j + length blk then blk ! (k - j) else buf ! k)"
proof -
  have lt: "length (take j buf) = j" using assms by simp
  consider "k < j" | "j \<le> k" "k < j + length blk" | "j + length blk \<le> k" by linarith
  then show ?thesis
  proof cases
    case 1
    then show ?thesis using lt by (simp add: store_block_def nth_append)
  next
    case 2
    then have "k - j < length blk" by linarith
    then show ?thesis using 2 lt by (simp add: store_block_def nth_append)
  next
    case 3
    then have n: "\<not> k < j" "\<not> k - j < length blk" by linarith+
    have "store_block buf j blk ! k = drop (j + length blk) buf ! (k - j - length blk)"
      using lt n by (simp add: store_block_def nth_append)
    also have "\<dots> = buf ! (j + length blk + (k - j - length blk))"
      using assms by (rule nth_drop)
    also have "j + length blk + (k - j - length blk) = k" using 3 by linarith
    finally show ?thesis using 3 by simp
  qed
qed

lemma store_block_twice:
  "j + length xs + length ys \<le> length buf \<Longrightarrow>
   store_block (store_block buf j xs) (j + length xs) ys = store_block buf j (xs @ ys)"
  by (simp add: store_block_def ac_simps)

subsection \<open>The state a loop leaves behind\<close>

lemma bufA_range_sum: "bufA (range_sum f i n s) = bufA s"
  by (simp add: range_sum_def)

lemma bufB_range_sum: "bufB (range_sum f i n s) = bufB s"
  by (simp add: range_sum_def)

lemma length_range_sum: "length (bufC (range_sum f i n s)) = length (bufC s)"
  by (simp add: range_sum_def)

lemma nth_range_sum:
  "k < length (bufC s) \<Longrightarrow>
   bufC (range_sum f i n s) ! k =
     (if i \<le> k \<and> k < n then f (bufA s ! k) (bufB s ! k) else bufC s ! k)"
  by (simp add: range_sum_def)

lemma range_sum_empty: "n \<le> i \<Longrightarrow> range_sum f i n s = s"
proof -
  assume "n \<le> i"
  then have "map (\<lambda>k. if i \<le> k \<and> k < n then f (bufA s ! k) (bufB s ! k) else bufC s ! k)
               [0..<length (bufC s)] = map (\<lambda>k. bufC s ! k) [0..<length (bufC s)]"
    by (intro map_cong) auto
  then show ?thesis by (simp add: range_sum_def map_nth)
qed

lemma range_sumI:
  fixes s t :: "'c bufs"
  assumes "bufA t = bufA s" "bufB t = bufB s" "length (bufC t) = length (bufC s)"
    and "\<And>k. k < length (bufC s) \<Longrightarrow>
           bufC t ! k = (if i \<le> k \<and> k < n then f (bufA s ! k) (bufB s ! k) else bufC s ! k)"
  shows "t = range_sum f i n s"
proof -
  have "bufC t = bufC (range_sum f i n s)"
    using assms(3,4) by (intro nth_equalityI) (simp_all add: length_range_sum nth_range_sum)
  then show ?thesis
    using assms(1,2) by (simp add: range_sum_def)
qed

lemma range_sum_step:
  assumes "i < n" "i < length (bufC s)"
  shows "range_sum f (Suc i) n (s\<lparr>bufC := (bufC s)[i := f (bufA s ! i) (bufB s ! i)]\<rparr>)
           = range_sum f i n s"
proof (rule range_sumI)
  fix k assume k: "k < length (bufC s)"
  show "bufC (range_sum f (Suc i) n (s\<lparr>bufC := (bufC s)[i := f (bufA s ! i) (bufB s ! i)]\<rparr>)) ! k
          = (if i \<le> k \<and> k < n then f (bufA s ! k) (bufB s ! k) else bufC s ! k)"
  proof (cases "k = i")
    case True
    then show ?thesis using assms by (simp add: nth_range_sum)
  next
    case False
    then show ?thesis using k by (auto simp: nth_range_sum)
  qed
qed (simp_all add: bufA_range_sum bufB_range_sum length_range_sum)

lemma range_sum_block:
  assumes "i + w \<le> n" "i + w \<le> length (bufA s)" "i + w \<le> length (bufB s)"
    "i + w \<le> length (bufC s)"
  shows "range_sum f (i + w) n
           (s\<lparr>bufC := store_block (bufC s) i
                         (map2 f (load_block w (bufA s) i) (load_block w (bufB s) i))\<rparr>)
           = range_sum f i n s"
proof (rule range_sumI)
  let ?blk = "map2 f (load_block w (bufA s) i) (load_block w (bufB s) i)"
  have lb: "length ?blk = w"
    using assms by (simp add: length_load_block)
  have fit: "i + length ?blk \<le> length (bufC s)"
    using assms lb by simp
  show "length (bufC (range_sum f (i + w) n (s\<lparr>bufC := store_block (bufC s) i ?blk\<rparr>)))
          = length (bufC s)"
    using fit by (simp add: length_range_sum length_store_block)
  fix k assume k: "k < length (bufC s)"
  have st: "store_block (bufC s) i ?blk ! k
              = (if i \<le> k \<and> k < i + w then ?blk ! (k - i) else bufC s ! k)"
    using nth_store_block [OF fit, of k] lb by simp
  have blk: "?blk ! (k - i) = f (bufA s ! k) (bufB s ! k)" if "i \<le> k" "k < i + w"
  proof -
    have "k - i < w" using that by linarith
    then have "?blk ! (k - i) = f (bufA s ! (i + (k - i))) (bufB s ! (i + (k - i)))"
      using assms by (simp add: length_load_block nth_load_block)
    then show ?thesis using that by simp
  qed
  have kl: "k < length (store_block (bufC s) i ?blk)"
    using k fit by (simp add: length_store_block)
  show "bufC (range_sum f (i + w) n (s\<lparr>bufC := store_block (bufC s) i ?blk\<rparr>)) ! k
          = (if i \<le> k \<and> k < n then f (bufA s ! k) (bufB s ! k) else bufC s ! k)"
    using kl st blk assms(1) by (auto simp: nth_range_sum)
qed (simp_all add: bufA_range_sum bufB_range_sum)

subsection \<open>The plain loops compute the pixelwise result\<close>

lemma unat_succ_below: "(i :: u32) < n \<Longrightarrow> unat (i + 1) = Suc (unat i)"
  by unat_arith

lemma kr_nsu_loop_eq:
  assumes "unat npixels \<le> length (bufA s)" "unat npixels \<le> length (bufB s)"
    "unat npixels \<le> length (bufC s)"
  shows "kr_nsu_loop i npixels s = Inr (range_sum kr_nsu_pixel (unat i) (unat npixels) s)"
  using assms
proof (induction i npixels s rule: kr_nsu_loop.induct)
  case (1 i npixels s)
  show ?case
  proof (cases "i < npixels")
    case False
    then have "unat npixels \<le> unat i" by (simp add: word_less_nat_alt)
    then have "range_sum kr_nsu_pixel (unat i) (unat npixels) s = s" by (rule range_sum_empty)
    then show ?thesis using False by (subst kr_nsu_loop.simps) simp
  next
    case True
    then have lt: "unat i < unat npixels" by (simp add: word_less_nat_alt)
    have suc: "unat (i + 1) = Suc (unat i)" using True by (rule unat_succ_below)
    define s1 where
      "s1 = s\<lparr>bufC := (bufC s)[unat i := kr_nsu_pixel (bufA s ! unat i) (bufB s ! unat i)]\<rparr>"
    have inb: "unat i < length (bufA s) \<and> unat i < length (bufB s) \<and> unat i < length (bufC s)"
      using lt "1.prems" by simp
    have "kr_nsu_loop i npixels s = kr_nsu_loop (i + 1) npixels s1"
      using True inb unfolding s1_def by (subst kr_nsu_loop.simps) simp
    also have "\<dots> = Inr (range_sum kr_nsu_pixel (unat (i + 1)) (unat npixels) s1)"
      unfolding s1_def using True inb "1.prems" by (intro "1.IH") simp_all
    also have "range_sum kr_nsu_pixel (unat (i + 1)) (unat npixels) s1
                 = range_sum kr_nsu_pixel (unat i) (unat npixels) s"
      unfolding s1_def suc using lt inb by (intro range_sum_step) simp_all
    finally show ?thesis .
  qed
qed

lemma nsu_loop_eq:
  assumes "unat npixels \<le> length (bufA s)" "unat npixels \<le> length (bufB s)"
    "unat npixels \<le> length (bufC s)"
  shows "nsu_loop i npixels s = Inr (range_sum nsu_pixel (unat i) (unat npixels) s)"
  using assms
proof (induction i npixels s rule: nsu_loop.induct)
  case (1 i npixels s)
  show ?case
  proof (cases "i < npixels")
    case False
    then have "unat npixels \<le> unat i" by (simp add: word_less_nat_alt)
    then have "range_sum nsu_pixel (unat i) (unat npixels) s = s" by (rule range_sum_empty)
    then show ?thesis using False by (subst nsu_loop.simps) simp
  next
    case True
    then have lt: "unat i < unat npixels" by (simp add: word_less_nat_alt)
    have suc: "unat (i + 1) = Suc (unat i)" using True by (rule unat_succ_below)
    define s1 where
      "s1 = s\<lparr>bufC := (bufC s)[unat i := nsu_pixel (bufA s ! unat i) (bufB s ! unat i)]\<rparr>"
    have inb: "unat i < length (bufA s) \<and> unat i < length (bufB s) \<and> unat i < length (bufC s)"
      using lt "1.prems" by simp
    have "nsu_loop i npixels s = nsu_loop (i + 1) npixels s1"
      using True inb unfolding s1_def by (subst nsu_loop.simps) simp
    also have "\<dots> = Inr (range_sum nsu_pixel (unat (i + 1)) (unat npixels) s1)"
      unfolding s1_def using True inb "1.prems" by (intro "1.IH") simp_all
    also have "range_sum nsu_pixel (unat (i + 1)) (unat npixels) s1
                 = range_sum nsu_pixel (unat i) (unat npixels) s"
      unfolding s1_def suc using lt inb by (intro range_sum_step) simp_all
    finally show ?thesis .
  qed
qed

lemma img_add_kr_nsu_eq:
  assumes "unat (width * height) \<le> length (bufA s)" "unat (width * height) \<le> length (bufB s)"
    "unat (width * height) \<le> length (bufC s)"
  shows "img_add_kr_nsu width height s = Inr (range_sum kr_nsu_pixel 0 (unat (width * height)) s)"
  using kr_nsu_loop_eq [OF assms, of 0] by (simp add: img_add_kr_nsu_def)

lemma img_add_nsu_eq:
  assumes "unat (width * height) \<le> length (bufA s)" "unat (width * height) \<le> length (bufB s)"
    "unat (width * height) \<le> length (bufC s)"
  shows "img_add_nsu width height s = Inr (range_sum nsu_pixel 0 (unat (width * height)) s)"
  using nsu_loop_eq [OF assms, of 0] by (simp add: img_add_nsu_def)

subsection \<open>The vector loops on whole blocks\<close>

lemma unat_add_below:
  fixes i n :: u32
  assumes "unat i + w \<le> unat n" "w < 2 ^ 32"
  shows "unat (i + word_of_nat w) = unat i + w"
proof -
  have "unat n < 2 ^ 32"
    using unsigned_less [of n] by simp
  then have "unat i + w < 2 ^ 32"
    using assms(1) by linarith
  moreover have "unat (word_of_nat w :: u32) = w"
    using assms(2) by (simp add: unat_of_nat)
  ultimately show ?thesis
    by (simp add: unat_word_ariths)
qed

lemma block_fits: "a < b \<Longrightarrow> w dvd b - a \<Longrightarrow> a + w \<le> (b :: nat)"
proof -
  assume "a < b" "w dvd b - a"
  then have "w \<le> b - a" by (intro dvd_imp_le) simp_all
  then show ?thesis using \<open>a < b\<close> by linarith
qed

lemma kr_sse_body_eq:
  assumes "unat i + 16 \<le> length (bufA s)" "unat i + 16 \<le> length (bufB s)"
    "unat i + 16 \<le> length (bufC s)"
  shows "kr_sse_body i s =
           Inr (s\<lparr>bufC := store_block (bufC s) (unat i)
                   (map2 kr_nsu_pixel (load_block 16 (bufA s) (unat i))
                                      (load_block 16 (bufB s) (unat i)))\<rparr>)"
proof -
  have "adds_u8 = kr_nsu_pixel"
    by (intro ext) (rule adds_u8_eq)
  then show ?thesis
    using assms by (simp add: kr_sse_body_def mm_loadu_si128_def mm_adds_epu8_def)
qed

lemma kr_avx_body_eq:
  assumes "unat i + 32 \<le> length (bufA s)" "unat i + 32 \<le> length (bufB s)"
    "unat i + 32 \<le> length (bufC s)"
  shows "kr_avx_body i s =
           Inr (s\<lparr>bufC := store_block (bufC s) (unat i)
                   (map2 kr_nsu_pixel (load_block 32 (bufA s) (unat i))
                                      (load_block 32 (bufB s) (unat i)))\<rparr>)"
proof -
  have "adds_u8 = kr_nsu_pixel"
    by (intro ext) (rule adds_u8_eq)
  then show ?thesis
    using assms by (simp add: kr_avx_body_def mm256_loadu_si256_def mm256_adds_epu8_def)
qed

lemma kr_sse_loop_eq:
  assumes "unat i \<le> unat npixels" "16 dvd unat npixels - unat i"
    "unat npixels \<le> length (bufA s)" "unat npixels \<le> length (bufB s)"
    "unat npixels \<le> length (bufC s)"
  shows "kr_sse_loop i npixels s = Some (Inr (range_sum kr_nsu_pixel (unat i) (unat npixels) s))"
  using assms
proof (induction "unat npixels - unat i" arbitrary: i s rule: less_induct)
  case less
  show ?case
  proof (cases "i < npixels")
    case False
    then have "unat npixels \<le> unat i" by (simp add: word_less_nat_alt)
    then have "range_sum kr_nsu_pixel (unat i) (unat npixels) s = s" by (rule range_sum_empty)
    then show ?thesis using False by (subst kr_sse_loop.simps) simp
  next
    case True
    then have lt: "unat i < unat npixels" by (simp add: word_less_nat_alt)
    have fit: "unat i + 16 \<le> unat npixels"
      using lt less.prems(2) by (rule block_fits)
    have nxt: "unat (i + 16) = unat i + 16"
      using unat_add_below [of i 16 npixels] fit by simp
    define s1 where
      "s1 = s\<lparr>bufC := store_block (bufC s) (unat i)
                (map2 kr_nsu_pixel (load_block 16 (bufA s) (unat i))
                                   (load_block 16 (bufB s) (unat i)))\<rparr>"
    have body: "kr_sse_body i s = Inr s1"
      unfolding s1_def using fit less.prems by (intro kr_sse_body_eq) simp_all
    have len: "length (bufC s1) = length (bufC s)"
      unfolding s1_def using fit less.prems by (simp add: length_store_block length_load_block)
    have ab: "bufA s1 = bufA s" "bufB s1 = bufB s" by (simp_all add: s1_def)
    have dv: "16 dvd unat npixels - unat (i + 16)"
    proof -
      have "unat npixels - unat i = (unat npixels - unat (i + 16)) + 16"
        using fit nxt by simp
      then show ?thesis using less.prems(2) by (simp add: dvd_add_left_iff)
    qed
    have "kr_sse_loop i npixels s = kr_sse_loop (i + 16) npixels s1"
      using True body by (subst kr_sse_loop.simps) simp
    also have "\<dots> = Some (Inr (range_sum kr_nsu_pixel (unat (i + 16)) (unat npixels) s1))"
      using fit nxt lt dv less.prems len ab by (intro less.hyps) simp_all
    also have "range_sum kr_nsu_pixel (unat (i + 16)) (unat npixels) s1
                 = range_sum kr_nsu_pixel (unat i) (unat npixels) s"
      unfolding s1_def nxt using fit less.prems by (intro range_sum_block) simp_all
    finally show ?thesis .
  qed
qed

lemma kr_avx_loop_eq:
  assumes "unat i \<le> unat npixels" "32 dvd unat npixels - unat i"
    "unat npixels \<le> length (bufA s)" "unat npixels \<le> length (bufB s)"
    "unat npixels \<le> length (bufC s)"
  shows "kr_avx_loop i npixels s = Some (Inr (range_sum kr_nsu_pixel (unat i) (unat npixels) s))"
  using assms
proof (induction "unat npixels - unat i" arbitrary: i s rule: less_induct)
  case less
  show ?case
  proof (cases "i < npixels")
    case False
    then have "unat npixels \<le> unat i" by (simp add: word_less_nat_alt)
    then have "range_sum kr_nsu_pixel (unat i) (unat npixels) s = s" by (rule range_sum_empty)
    then show ?thesis using False by (subst kr_avx_loop.simps) simp
  next
    case True
    then have lt: "unat i < unat npixels" by (simp add: word_less_nat_alt)
    have fit: "unat i + 32 \<le> unat npixels"
      using lt less.prems(2) by (rule block_fits)
    have nxt: "unat (i + 32) = unat i + 32"
      using unat_add_below [of i 32 npixels] fit by simp
    define s1 where
      "s1 = s\<lparr>bufC := store_block (bufC s) (unat i)
                (map2 kr_nsu_pixel (load_block 32 (bufA s) (unat i))
                                   (load_block 32 (bufB s) (unat i)))\<rparr>"
    have body: "kr_avx_body i s = Inr s1"
      unfolding s1_def using fit less.prems by (intro kr_avx_body_eq) simp_all
    have len: "length (bufC s1) = length (bufC s)"
      unfolding s1_def using fit less.prems by (simp add: length_store_block length_load_block)
    have ab: "bufA s1 = bufA s" "bufB s1 = bufB s" by (simp_all add: s1_def)
    have dv: "32 dvd unat npixels - unat (i + 32)"
    proof -
      have "unat npixels - unat i = (unat npixels - unat (i + 32)) + 32"
        using fit nxt by simp
      then show ?thesis using less.prems(2) by (simp add: dvd_add_left_iff)
    qed
    have "kr_avx_loop i npixels s = kr_avx_loop (i + 32) npixels s1"
      using True body by (subst kr_avx_loop.simps) simp
    also have "\<dots> = Some (Inr (range_sum kr_nsu_pixel (unat (i + 32)) (unat npixels) s1))"
      using fit nxt lt dv less.prems len ab by (intro less.hyps) simp_all
    also have "range_sum kr_nsu_pixel (unat (i + 32)) (unat npixels) s1
                 = range_sum kr_nsu_pixel (unat i) (unat npixels) s"
      unfolding s1_def nxt using fit less.prems by (intro range_sum_block) simp_all
    finally show ?thesis .
  qed
qed

lemma sse_body_eq:
  assumes "unat i + 16 \<le> length (bufA s)" "unat i + 16 \<le> length (bufB s)"
    "unat i + 16 \<le> length (bufC s)" "unat (i + 8) = unat i + 8"
  shows "sse_body i i s =
           Inr (i + 16, s\<lparr>bufC := store_block (bufC s) (unat i)
                   (map2 nsu_pixel (load_block 16 (bufA s) (unat i))
                                   (load_block 16 (bufB s) (unat i)))\<rparr>)"
proof -
  define X where "X = load_block 16 (bufA s) (unat i)"
  define Y where "Y = load_block 16 (bufB s) (unat i)"
  define lo where "lo = map2 nsu_pixel (take 8 X) (take 8 Y)"
  define hi where "hi = map2 nsu_pixel (take 8 (drop 8 X)) (take 8 (drop 8 Y))"
  have lX: "length X = 16" and lY: "length Y = 16"
    using assms by (simp_all add: X_def Y_def length_load_block)
  have llo: "length lo = 8" and lhi: "length hi = 8"
    using lX lY by (simp_all add: lo_def hi_def)
  note j1 = assms(4)
  have len1: "length (store_block (bufC s) (unat i) lo) = length (bufC s)"
    using assms(3) llo by (simp add: length_store_block)
  have two: "store_block (store_block (bufC s) (unat i) lo) (unat i + 8) hi
               = store_block (bufC s) (unat i) (map2 nsu_pixel X Y)"
  proof -
    have "store_block (store_block (bufC s) (unat i) lo) (unat i + length lo) hi
            = store_block (bufC s) (unat i) (lo @ hi)"
      using assms(3) llo lhi by (intro store_block_twice) simp
    moreover have "lo @ hi = map2 nsu_pixel X Y"
      unfolding lo_def hi_def using lX lY by (rule map2_halves)
    ultimately show ?thesis using llo by simp
  qed
  have "sse_body i i s =
          Inr (i + 8 + 8, s\<lparr>bufC := store_block (store_block (bufC s) (unat i) lo) (unat i + 8) hi\<rparr>)"
    using assms(1-3) len1 j1
    by (simp add: sse_body_def Let_def mm_loadu_si128_def lanes_sum_lo lanes_sum_hi
        flip: X_def Y_def lo_def hi_def)
  then show ?thesis
    by (simp add: two X_def Y_def add.assoc)
qed

lemma sse_loop_eq:
  assumes "unat i \<le> unat npixels" "16 dvd unat npixels - unat i"
    "unat npixels \<le> length (bufA s)" "unat npixels \<le> length (bufB s)"
    "unat npixels \<le> length (bufC s)"
  shows "sse_loop i i npixels s = Some (Inr (range_sum nsu_pixel (unat i) (unat npixels) s))"
  using assms
proof (induction "unat npixels - unat i" arbitrary: i s rule: less_induct)
  case less
  show ?case
  proof (cases "i < npixels")
    case False
    then have "unat npixels \<le> unat i" by (simp add: word_less_nat_alt)
    then have "range_sum nsu_pixel (unat i) (unat npixels) s = s" by (rule range_sum_empty)
    then show ?thesis using False by (subst sse_loop.simps) simp
  next
    case True
    then have lt: "unat i < unat npixels" by (simp add: word_less_nat_alt)
    have fit: "unat i + 16 \<le> unat npixels"
      using lt less.prems(2) by (rule block_fits)
    have nxt: "unat (i + 16) = unat i + 16"
      using unat_add_below [of i 16 npixels] fit by simp
    define s1 where
      "s1 = s\<lparr>bufC := store_block (bufC s) (unat i)
                (map2 nsu_pixel (load_block 16 (bufA s) (unat i))
                                (load_block 16 (bufB s) (unat i)))\<rparr>"
    have body: "sse_body i i s = Inr (i + 16, s1)"
      unfolding s1_def using fit less.prems unat_add_below [of i 8 npixels]
      by (intro sse_body_eq) simp_all
    have len: "length (bufC s1) = length (bufC s)"
      unfolding s1_def using fit less.prems by (simp add: length_store_block length_load_block)
    have ab: "bufA s1 = bufA s" "bufB s1 = bufB s" by (simp_all add: s1_def)
    have dv: "16 dvd unat npixels - unat (i + 16)"
    proof -
      have "unat npixels - unat i = (unat npixels - unat (i + 16)) + 16"
        using fit nxt by simp
      then show ?thesis using less.prems(2) by (simp add: dvd_add_left_iff)
    qed
    have "sse_loop i i npixels s = sse_loop (i + 16) (i + 16) npixels s1"
      using True body by (subst sse_loop.simps) simp
    also have "\<dots> = Some (Inr (range_sum nsu_pixel (unat (i + 16)) (unat npixels) s1))"
      using fit nxt lt dv less.prems len ab by (intro less.hyps) simp_all
    also have "range_sum nsu_pixel (unat (i + 16)) (unat npixels) s1
                 = range_sum nsu_pixel (unat i) (unat npixels) s"
      unfolding s1_def nxt using fit less.prems by (intro range_sum_block) simp_all
    finally show ?thesis .
  qed
qed

lemma img_add_kr_sse_eq:
  assumes "16 dvd unat (width * height)"
    and "unat (width * height) \<le> length (bufA s)" "unat (width * height) \<le> length (bufB s)"
    and "unat (width * height) \<le> length (bufC s)"
  shows "img_add_kr_sse width height s
           = Some (Inr (range_sum kr_nsu_pixel 0 (unat (width * height)) s))"
  using kr_sse_loop_eq [of 0 "width * height" s] assms by (simp add: img_add_kr_sse_def)

lemma img_add_kr_avx_eq:
  assumes "32 dvd unat (width * height)"
    and "unat (width * height) \<le> length (bufA s)" "unat (width * height) \<le> length (bufB s)"
    and "unat (width * height) \<le> length (bufC s)"
  shows "img_add_kr_avx width height s
           = Some (Inr (range_sum kr_nsu_pixel 0 (unat (width * height)) s))"
  using kr_avx_loop_eq [of 0 "width * height" s] assms by (simp add: img_add_kr_avx_def)

lemma img_add_sse_eq:
  assumes "16 dvd unat (width * height)"
    and "unat (width * height) \<le> length (bufA s)" "unat (width * height) \<le> length (bufB s)"
    and "unat (width * height) \<le> length (bufC s)"
  shows "img_add_sse width height s
           = Some (Inr (range_sum nsu_pixel 0 (unat (width * height)) s))"
  using sse_loop_eq [of 0 "width * height" s] assms by (simp add: img_add_sse_def)

subsection \<open>The vector loops never change the inputs\<close>













subsection \<open>The strategies compared\<close>

text \<open>
  What holds of the cross-strategy equivalence: when \<open>N\<close> is a multiple of 32 and the
  buffers hold at least \<open>N\<close> elements, the three saturating variants return the same
  state, and so do the plain and the 128-bit widening variants.
\<close>

lemma strategies_agree_on_multiples_of_32:
  fixes s :: "u8 bufs" and t :: "u16 bufs"
  assumes "32 dvd unat (width * height)"
    and "unat (width * height) \<le> length (bufA s)" "unat (width * height) \<le> length (bufB s)"
    and "unat (width * height) \<le> length (bufC s)"
    and "unat (width * height) \<le> length (bufA t)" "unat (width * height) \<le> length (bufB t)"
    and "unat (width * height) \<le> length (bufC t)"
  shows "img_add_kr_sse width height s = Some (img_add_kr_nsu width height s) \<and>
         img_add_kr_avx width height s = Some (img_add_kr_nsu width height s) \<and>
         img_add_sse width height t = Some (img_add_nsu width height t)"
proof -
  have "(16 :: nat) dvd 32" by simp
  then have "16 dvd unat (width * height)"
    using assms(1) by (rule dvd_trans)
  then show ?thesis
    using assms
    by (simp add: img_add_kr_sse_eq img_add_kr_avx_eq img_add_sse_eq
        img_add_kr_nsu_eq img_add_nsu_eq)
qed

lemma replicate_32:
  "replicate 32 x = [x, x, x, x, x, x, x, x, x, x, x, x, x, x, x, x,
                     x, x, x, x, x, x, x, x, x, x, x, x, x, x, x, x]"
  by (simp add: numeral_eq_Suc)

lemma avx_sum_lo_ramp32:
  "lanes_u16 (mm256_adds_epu16 (mm256_unpacklo_epi8 ramp32 mm256_setzero_si256)
                               (mm256_unpacklo_epi8 (replicate 32 0) mm256_setzero_si256))
     = [0, 1, 2, 3, 4, 5, 6, 7, 16, 17, 18, 19, 20, 21, 22, 23]"
  by (simp add: ramp32_def replicate_32 mm256_adds_epu16_def mm256_unpacklo_epi8_def
      mm_unpacklo_epi8_def mm256_setzero_si256_def lanes_u16_bytes_u16 adds_u16_def)

lemma avx_sum_hi_ramp32:
  "lanes_u16 (mm256_adds_epu16 (mm256_unpackhi_epi8 ramp32 mm256_setzero_si256)
                               (mm256_unpackhi_epi8 (replicate 32 0) mm256_setzero_si256))
     = [8, 9, 10, 11, 12, 13, 14, 15, 24, 25, 26, 27, 28, 29, 30, 31]"
  by (simp add: ramp32_def replicate_32 mm256_adds_epu16_def mm256_unpackhi_epi8_def
      mm_unpackhi_epi8_def mm256_setzero_si256_def lanes_u16_bytes_u16 adds_u16_def)

lemma avx_body_ramp32:
  "avx_body 0 0 \<lparr>bufA = ramp32, bufB = replicate 32 0, bufC = replicate 32 0\<rparr>
     = Inr (32, \<lparr>bufA = ramp32, bufB = replicate 32 0, bufC = ramp32_avx\<rparr>)"
proof -
  have l: "length (ramp32 :: u8 list) = 32"
    by (simp add: ramp32_def)
  have x: "take 32 (ramp32 :: u8 list) = ramp32"
    using l by simp
  have c: "store_block
             (store_block (replicate 32 0) 0 [0, 1, 2, 3, 4, 5, 6, 7, 16, 17, 18, 19, 20, 21, 22, 23])
             16 [8, 9, 10, 11, 12, 13, 14, 15, 24, 25, 26, 27, 28, 29, 30, 31]
           = (ramp32_avx :: u16 list)"
    by (simp add: store_block_def replicate_32 ramp32_avx_def)
  show ?thesis
    unfolding avx_body_def Let_def mm256_loadu_si256_def load_block_def
    by (simp add: l x avx_sum_lo_ramp32 avx_sum_hi_ramp32 c length_store_block)
qed

lemma img_add_avx_ramp32:
  "img_add_avx 32 1 \<lparr>bufA = ramp32, bufB = replicate 32 0, bufC = replicate 32 0\<rparr>
     = Some (Inr \<lparr>bufA = ramp32, bufB = replicate 32 0, bufC = ramp32_avx\<rparr>)"
proof -
  have "avx_loop 0 0 32 \<lparr>bufA = ramp32, bufB = replicate 32 0, bufC = replicate 32 0\<rparr>
          = avx_loop 32 32 32 \<lparr>bufA = ramp32, bufB = replicate 32 0, bufC = ramp32_avx\<rparr>"
    by (subst avx_loop.simps) (simp add: avx_body_ramp32)
  also have "\<dots> = Some (Inr \<lparr>bufA = ramp32, bufB = replicate 32 0, bufC = ramp32_avx\<rparr>)"
    by (subst avx_loop.simps) simp
  finally show ?thesis by (simp add: img_add_avx_def)
qed

lemma range_sum_ramp32:
  "range_sum nsu_pixel 0 32 \<lparr>bufA = ramp32, bufB = replicate 32 0, bufC = replicate 32 0\<rparr>
     = \<lparr>bufA = ramp32, bufB = replicate 32 0, bufC = ramp32\<rparr>"
  by (simp add: range_sum_def upt_rec nsu_pixel_def ramp32_def)

subsection \<open>What a vector loop that returns has written\<close>






























subsection \<open>A product that wraps to zero\<close>

lemma img_add_kr_nsu_65536: "img_add_kr_nsu 65536 65536 s = Inr s"
proof -
  have z: "(65536 :: u32) * 65536 = 0" by simp
  show ?thesis
    unfolding img_add_kr_nsu_def Let_def z by (subst kr_nsu_loop.simps) simp
qed

lemma img_add_nsu_65536: "img_add_nsu 65536 65536 s = Inr s"
proof -
  have z: "(65536 :: u32) * 65536 = 0" by simp
  show ?thesis
    unfolding img_add_nsu_def Let_def z by (subst nsu_loop.simps) simp
qed

lemma big_image_simps:
  "bufA (big_image c) ! 0 = 1" "bufB (big_image c) ! 0 = 2" "bufC (big_image c) ! 0 = c"
  "length (bufA (big_image c)) = 4294967296" "length (bufB (big_image c)) = 4294967296"
  "length (bufC (big_image c)) = 4294967296"
  by (simp_all add: big_image_def)

section \<open>The claims\<close>

text \<open>
  The code computes its pixel count as \<^verbatim>\<open>npixels = width * height\<close> in
  \<open>unsigned int\<close>, which is \<open>unat (width * height)\<close> and equals
  \<open>(unat width * unat height) mod 2^32\<close>: the mathematical product when that is below
  \<open>2^32\<close>, and less otherwise. The capacity precondition of the kernels is that each
  buffer holds at least the stated number of elements.
\<close>

text \<open>
  C1. The claim is that for every length that is a multiple of 32 the plain, the 128-bit
  and the 256-bit variants leave the same bytes in \<open>C\<close>, for both kernels. For the
  widening kernel the 256-bit variant does not: with \<open>width = 32\<close>, \<open>height = 1\<close>,
  \<open>A = [0, 1, .., 31]\<close> and \<open>B\<close> all zero, \<open>img_add_nsu\<close> and \<open>img_add_sse\<close> leave
  \<open>C = [0, 1, .., 31]\<close>, while \<open>img_add_avx\<close> leaves the two middle groups of eight
  exchanged. The 256-bit unpack works inside each 128-bit half, so \<open>SL\<close> holds the sums
  of pixels 0..7 and 16..23 and \<open>SH\<close> those of pixels 8..15 and 24..31, and the loop
  stores \<open>SL\<close> and then \<open>SH\<close>.
\<close>

theorem C1_avx_widening_permutes:
  "img_add_nsu 32 1 \<lparr>bufA = ramp32, bufB = replicate 32 0, bufC = replicate 32 0\<rparr>
     = Inr \<lparr>bufA = ramp32, bufB = replicate 32 0, bufC = ramp32\<rparr> \<and>
   img_add_sse 32 1 \<lparr>bufA = ramp32, bufB = replicate 32 0, bufC = replicate 32 0\<rparr>
     = Some (Inr \<lparr>bufA = ramp32, bufB = replicate 32 0, bufC = ramp32\<rparr>) \<and>
   img_add_avx 32 1 \<lparr>bufA = ramp32, bufB = replicate 32 0, bufC = replicate 32 0\<rparr>
     = Some (Inr \<lparr>bufA = ramp32, bufB = replicate 32 0, bufC = ramp32_avx\<rparr>) \<and>
   ramp32_avx \<noteq> (ramp32 :: u16 list) \<and>
   img_add_avx 32 1 \<lparr>bufA = ramp32, bufB = replicate 32 0, bufC = replicate 32 0\<rparr>
     \<noteq> Some (img_add_nsu 32 1 \<lparr>bufA = ramp32, bufB = replicate 32 0, bufC = replicate 32 0\<rparr>)"
proof -
  let ?s = "\<lparr>bufA = ramp32, bufB = replicate 32 0, bufC = replicate 32 (0 :: u16)\<rparr>"
  have n: "unat (32 * 1 :: u32) = 32" by simp
  have cap: "unat (32 * 1 :: u32) \<le> length (bufA ?s)" "unat (32 * 1 :: u32) \<le> length (bufB ?s)"
    "unat (32 * 1 :: u32) \<le> length (bufC ?s)"
    unfolding n by (simp_all add: ramp32_def)
  have nsu: "img_add_nsu 32 1 ?s = Inr \<lparr>bufA = ramp32, bufB = replicate 32 0, bufC = ramp32\<rparr>"
    using img_add_nsu_eq [OF cap] unfolding n range_sum_ramp32 .
  have "16 dvd unat (32 * 1 :: u32)"
    unfolding n by simp
  then have sse: "img_add_sse 32 1 ?s
                    = Some (Inr \<lparr>bufA = ramp32, bufB = replicate 32 0, bufC = ramp32\<rparr>)"
    using img_add_sse_eq [OF _ cap] unfolding n range_sum_ramp32 by simp
  have ne: "ramp32_avx \<noteq> (ramp32 :: u16 list)"
    by (simp add: ramp32_avx_def ramp32_def)
  show ?thesis
    using nsu sse ne by (simp add: img_add_avx_ramp32)
qed

text \<open>
  C2 (amended). The claim takes \<open>N\<close> to be \<open>width * height\<close>; the code counts
  \<open>N = (width * height) mod 2^32\<close> pixels, which is the product whenever the product is
  below \<open>2^32\<close>. With that \<open>N\<close>: for all \<open>width\<close>, \<open>height\<close> and all buffers holding at
  least \<open>N\<close> pixels, the plain saturating kernel \<open>img_add_kr_nsu\<close> returns, and afterwards
  \<open>C[i] = min(A[i] + B[i], 255)\<close> for every \<open>i\<close> in \<open>[0, N)\<close>; every output value is at
  most 255.
\<close>

theorem C2_kr_nsu_saturating_sum:
  fixes width height :: u32 and s :: "u8 bufs" and N :: nat
  defines "N \<equiv> (unat width * unat height) mod 2 ^ 32"
  assumes "N \<le> length (bufA s)" and "N \<le> length (bufB s)" and "N \<le> length (bufC s)"
  shows "\<exists>s'. img_add_kr_nsu width height s = Inr s' \<and>
           (\<forall>i < N.
              unat (bufC s' ! i) = min (unat (bufA s ! i) + unat (bufB s ! i)) 255 \<and>
              unat (bufC s' ! i) \<le> 255)"
proof -
  have n: "unat (width * height) = N"
    by (simp add: N_def unat_word_ariths)
  let ?s' = "range_sum kr_nsu_pixel 0 N s"
  have "img_add_kr_nsu width height s = Inr ?s'"
    using assms(2-4) img_add_kr_nsu_eq [of width height s] unfolding n by simp
  moreover have "unat (bufC ?s' ! i) = min (unat (bufA s ! i) + unat (bufB s ! i)) 255"
    if "i < N" for i
    using that assms(4) by (simp add: nth_range_sum unat_kr_nsu_pixel)
  ultimately show ?thesis by auto
qed

theorem C2_witness:
  "\<exists>s'. img_add_kr_nsu 3 1 \<lparr>bufA = [200, 7, 255], bufB = [100, 8, 255], bufC = [0, 0, 0]\<rparr> = Inr s' \<and>
        unat (bufC s' ! 0) = 255 \<and> unat (bufC s' ! 1) = 15 \<and> unat (bufC s' ! 2) = 255"
proof -
  let ?s = "\<lparr>bufA = [200, 7, 255], bufB = [100, 8, 255], bufC = [0, 0, 0 :: u8]\<rparr>"
  have n: "(unat (3 :: u32) * unat (1 :: u32)) mod 2 ^ 32 = 3" by simp
  have "(unat (3 :: u32) * unat (1 :: u32)) mod 2 ^ 32 \<le> length (bufA ?s)"
    "(unat (3 :: u32) * unat (1 :: u32)) mod 2 ^ 32 \<le> length (bufB ?s)"
    "(unat (3 :: u32) * unat (1 :: u32)) mod 2 ^ 32 \<le> length (bufC ?s)"
    unfolding n by simp_all
  from C2_kr_nsu_saturating_sum [OF this] obtain s'
    where r: "img_add_kr_nsu 3 1 ?s = Inr s'"
      and c: "\<And>i. i < 3 \<Longrightarrow>
                unat (bufC s' ! i) = min (unat (bufA ?s ! i) + unat (bufB ?s ! i)) 255"
    unfolding n by blast
  from c [of 0] c [of 1] c [of 2] r show ?thesis by simp
qed

text \<open>
  C2 as stated fails where the product reaches \<open>2^32\<close>. With \<open>width = height = 65536\<close>
  and buffers of \<open>65536 * 65536 = 2^32\<close> elements, \<open>A\<close> all 1, \<open>B\<close> all 2 and \<open>C\<close> all 7,
  the count is 0, the call returns the state as it was, and \<open>C[0]\<close> is still 7, not
  \<open>min(1 + 2, 255) = 3\<close>.
\<close>

theorem C2_counterexample:
  "unat (65536 :: u32) * unat (65536 :: u32) = 4294967296 \<and>
   length (bufA (big_image (7 :: u8))) = 4294967296 \<and>
   length (bufB (big_image (7 :: u8))) = 4294967296 \<and>
   length (bufC (big_image (7 :: u8))) = 4294967296 \<and>
   img_add_kr_nsu 65536 65536 (big_image 7) = Inr (big_image 7) \<and>
   unat (bufC (big_image (7 :: u8)) ! 0) = 7 \<and>
   min (unat (bufA (big_image (7 :: u8)) ! 0) + unat (bufB (big_image (7 :: u8)) ! 0)) 255 = 3 \<and>
   \<not> (\<exists>s'. img_add_kr_nsu 65536 65536 (big_image 7) = Inr s' \<and>
          (\<forall>i < unat (65536 :: u32) * unat (65536 :: u32).
             unat (bufC s' ! i)
               = min (unat (bufA (big_image (7 :: u8)) ! i)
                      + unat (bufB (big_image (7 :: u8)) ! i)) 255))"
proof -
  have a: "bufA (big_image (7 :: u8)) ! 0 = 1" "bufB (big_image (7 :: u8)) ! 0 = 2"
    "bufC (big_image (7 :: u8)) ! 0 = 7"
    by (simp_all add: big_image_def)
  have p: "unat (65536 :: u32) * unat (65536 :: u32) = 4294967296" by simp
  have l: "length (bufA (big_image (7 :: u8))) = 4294967296"
    "length (bufB (big_image (7 :: u8))) = 4294967296"
    "length (bufC (big_image (7 :: u8))) = 4294967296"
    by (simp_all add: big_image_def)
  have r: "img_add_kr_nsu 65536 65536 (big_image 7) = Inr (big_image 7)"
    by (rule img_add_kr_nsu_65536)
  have "\<not> (\<exists>s'. img_add_kr_nsu 65536 65536 (big_image 7) = Inr s' \<and>
          (\<forall>i < unat (65536 :: u32) * unat (65536 :: u32).
             unat (bufC s' ! i)
               = min (unat (bufA (big_image (7 :: u8)) ! i)
                      + unat (bufB (big_image (7 :: u8)) ! i)) 255))"
  proof
    assume "\<exists>s'. img_add_kr_nsu 65536 65536 (big_image 7) = Inr s' \<and>
          (\<forall>i < unat (65536 :: u32) * unat (65536 :: u32).
             unat (bufC s' ! i)
               = min (unat (bufA (big_image (7 :: u8)) ! i)
                      + unat (bufB (big_image (7 :: u8)) ! i)) 255)"
    then have "\<forall>i < (4294967296 :: nat).
             unat (bufC (big_image (7 :: u8)) ! i)
               = min (unat (bufA (big_image (7 :: u8)) ! i)
                      + unat (bufB (big_image (7 :: u8)) ! i)) 255"
      unfolding r p by simp
    then have "unat (bufC (big_image (7 :: u8)) ! 0)
                 = min (unat (bufA (big_image (7 :: u8)) ! 0)
                        + unat (bufB (big_image (7 :: u8)) ! 0)) 255"
      by simp
    then show False unfolding a by simp
  qed
  then show ?thesis using a p l r by simp
qed

text \<open>
  C3 (amended). With \<open>N = (width * height) mod 2^32\<close>, the count the code computes (the
  product itself whenever it is below \<open>2^32\<close>): for all \<open>width\<close>, \<open>height\<close> and all buffers
  holding at least \<open>N\<close> pixels, the plain widening kernel \<open>img_add_nsu\<close> returns, and
  afterwards \<open>C[i] = A[i] + B[i]\<close> exactly for every \<open>i\<close> in \<open>[0, N)\<close>, a value in
  \<open>[0, 510]\<close>.
\<close>

theorem C3_nsu_exact_sum:
  fixes width height :: u32 and s :: "u16 bufs" and N :: nat
  defines "N \<equiv> (unat width * unat height) mod 2 ^ 32"
  assumes "N \<le> length (bufA s)" and "N \<le> length (bufB s)" and "N \<le> length (bufC s)"
  shows "\<exists>s'. img_add_nsu width height s = Inr s' \<and>
           (\<forall>i < N.
              unat (bufC s' ! i) = unat (bufA s ! i) + unat (bufB s ! i) \<and>
              unat (bufC s' ! i) \<le> 510)"
proof -
  have n: "unat (width * height) = N"
    by (simp add: N_def unat_word_ariths)
  let ?s' = "range_sum nsu_pixel 0 N s"
  have "img_add_nsu width height s = Inr ?s'"
    using assms(2-4) img_add_nsu_eq [of width height s] unfolding n by simp
  moreover have "unat (bufC ?s' ! i) = unat (bufA s ! i) + unat (bufB s ! i)"
    if "i < N" for i
    using that assms(4) by (simp add: nth_range_sum unat_nsu_pixel)
  moreover have "unat (bufA s ! i) + unat (bufB s ! i) \<le> 510" for i
    using unat_u8_bound [of "bufA s ! i"] unat_u8_bound [of "bufB s ! i"] by simp
  ultimately show ?thesis by auto
qed

theorem C3_witness:
  "\<exists>s'. img_add_nsu 3 1 \<lparr>bufA = [200, 7, 255], bufB = [100, 8, 255], bufC = [0, 0, 0]\<rparr> = Inr s' \<and>
        unat (bufC s' ! 0) = 300 \<and> unat (bufC s' ! 1) = 15 \<and> unat (bufC s' ! 2) = 510"
proof -
  let ?s = "\<lparr>bufA = [200, 7, 255], bufB = [100, 8, 255], bufC = [0, 0, 0 :: u16]\<rparr>"
  have n: "(unat (3 :: u32) * unat (1 :: u32)) mod 2 ^ 32 = 3" by simp
  have "(unat (3 :: u32) * unat (1 :: u32)) mod 2 ^ 32 \<le> length (bufA ?s)"
    "(unat (3 :: u32) * unat (1 :: u32)) mod 2 ^ 32 \<le> length (bufB ?s)"
    "(unat (3 :: u32) * unat (1 :: u32)) mod 2 ^ 32 \<le> length (bufC ?s)"
    unfolding n by simp_all
  from C3_nsu_exact_sum [OF this] obtain s'
    where r: "img_add_nsu 3 1 ?s = Inr s'"
      and c: "\<And>i. i < 3 \<Longrightarrow>
                unat (bufC s' ! i) = unat (bufA ?s ! i) + unat (bufB ?s ! i)"
    unfolding n by blast
  from c [of 0] c [of 1] c [of 2] r show ?thesis by simp
qed

text \<open>
  C3 as stated fails where the product reaches \<open>2^32\<close>. With \<open>width = height = 65536\<close>
  and buffers of \<open>2^32\<close> elements, \<open>A\<close> all 1, \<open>B\<close> all 2 and \<open>C\<close> all 7, the call returns
  the state as it was, and \<open>C[0]\<close> is still 7, not \<open>1 + 2 = 3\<close>.
\<close>

theorem C3_counterexample:
  "unat (65536 :: u32) * unat (65536 :: u32) = 4294967296 \<and>
   length (bufA (big_image (7 :: u16))) = 4294967296 \<and>
   length (bufB (big_image (7 :: u16))) = 4294967296 \<and>
   length (bufC (big_image (7 :: u16))) = 4294967296 \<and>
   img_add_nsu 65536 65536 (big_image 7) = Inr (big_image 7) \<and>
   unat (bufC (big_image (7 :: u16)) ! 0) = 7 \<and>
   unat (bufA (big_image (7 :: u16)) ! 0) + unat (bufB (big_image (7 :: u16)) ! 0) = 3 \<and>
   \<not> (\<exists>s'. img_add_nsu 65536 65536 (big_image 7) = Inr s' \<and>
          (\<forall>i < unat (65536 :: u32) * unat (65536 :: u32).
             unat (bufC s' ! i)
               = unat (bufA (big_image (7 :: u16)) ! i) + unat (bufB (big_image (7 :: u16)) ! i)))"
proof -
  have a: "bufA (big_image (7 :: u16)) ! 0 = 1" "bufB (big_image (7 :: u16)) ! 0 = 2"
    "bufC (big_image (7 :: u16)) ! 0 = 7"
    by (simp_all add: big_image_def)
  have p: "unat (65536 :: u32) * unat (65536 :: u32) = 4294967296" by simp
  have l: "length (bufA (big_image (7 :: u16))) = 4294967296"
    "length (bufB (big_image (7 :: u16))) = 4294967296"
    "length (bufC (big_image (7 :: u16))) = 4294967296"
    by (simp_all add: big_image_def)
  have r: "img_add_nsu 65536 65536 (big_image 7) = Inr (big_image 7)"
    by (rule img_add_nsu_65536)
  have "\<not> (\<exists>s'. img_add_nsu 65536 65536 (big_image 7) = Inr s' \<and>
          (\<forall>i < unat (65536 :: u32) * unat (65536 :: u32).
             unat (bufC s' ! i)
               = unat (bufA (big_image (7 :: u16)) ! i) + unat (bufB (big_image (7 :: u16)) ! i)))"
  proof
    assume "\<exists>s'. img_add_nsu 65536 65536 (big_image 7) = Inr s' \<and>
          (\<forall>i < unat (65536 :: u32) * unat (65536 :: u32).
             unat (bufC s' ! i)
               = unat (bufA (big_image (7 :: u16)) ! i) + unat (bufB (big_image (7 :: u16)) ! i))"
    then have "\<forall>i < (4294967296 :: nat).
             unat (bufC (big_image (7 :: u16)) ! i)
               = unat (bufA (big_image (7 :: u16)) ! i) + unat (bufB (big_image (7 :: u16)) ! i)"
      unfolding r p by simp
    then have "unat (bufC (big_image (7 :: u16)) ! 0)
                 = unat (bufA (big_image (7 :: u16)) ! 0) + unat (bufB (big_image (7 :: u16)) ! 0)"
      by simp
    then show False unfolding a by simp
  qed
  then show ?thesis using a p l r by simp
qed

text \<open>
  C4. When \<open>N\<close> is a multiple of 16 and the buffers hold at least \<open>N\<close> elements, each
  128-bit kernel ends and returns exactly what the plain kernel returns: the same state,
  hence the same \<open>C\<close> at every index, and unchanged \<open>A\<close> and \<open>B\<close>. The run ends without
  \<open>OutOfBounds\<close>, also when the capacity is exactly \<open>N\<close>, so no element at index \<open>N\<close> or
  beyond is read or written; in a larger \<open>C\<close> the elements from \<open>N\<close> on keep their values.
\<close>

theorem C4_sse_equals_nsu:
  fixes s :: "u8 bufs" and t :: "u16 bufs"
  assumes "16 dvd unat (width * height)"
    and "unat (width * height) \<le> length (bufA s)" "unat (width * height) \<le> length (bufB s)"
    and "unat (width * height) \<le> length (bufC s)"
    and "unat (width * height) \<le> length (bufA t)" "unat (width * height) \<le> length (bufB t)"
    and "unat (width * height) \<le> length (bufC t)"
  shows "(\<exists>s'. img_add_kr_sse width height s = Some (Inr s') \<and>
               img_add_kr_nsu width height s = Inr s' \<and>
               length (bufC s') = length (bufC s) \<and>
               (\<forall>k. unat (width * height) \<le> k \<and> k < length (bufC s) \<longrightarrow>
                     bufC s' ! k = bufC s ! k)) \<and>
         (\<exists>t'. img_add_sse width height t = Some (Inr t') \<and>
               img_add_nsu width height t = Inr t' \<and>
               length (bufC t') = length (bufC t) \<and>
               (\<forall>k. unat (width * height) \<le> k \<and> k < length (bufC t) \<longrightarrow>
                     bufC t' ! k = bufC t ! k))"
proof (intro conjI)
  let ?s' = "range_sum kr_nsu_pixel 0 (unat (width * height)) s"
  have "img_add_kr_sse width height s = Some (Inr ?s')"
    using assms(1-4) by (rule img_add_kr_sse_eq)
  moreover have "img_add_kr_nsu width height s = Inr ?s'"
    using assms(2-4) by (rule img_add_kr_nsu_eq)
  moreover have "length (bufC ?s') = length (bufC s)"
    by (rule length_range_sum)
  moreover have "\<forall>k. unat (width * height) \<le> k \<and> k < length (bufC s) \<longrightarrow>
                     bufC ?s' ! k = bufC s ! k"
    by (simp add: nth_range_sum)
  ultimately show "\<exists>s'. img_add_kr_sse width height s = Some (Inr s') \<and>
               img_add_kr_nsu width height s = Inr s' \<and>
               length (bufC s') = length (bufC s) \<and>
               (\<forall>k. unat (width * height) \<le> k \<and> k < length (bufC s) \<longrightarrow>
                     bufC s' ! k = bufC s ! k)"
    by blast
next
  let ?t' = "range_sum nsu_pixel 0 (unat (width * height)) t"
  have "img_add_sse width height t = Some (Inr ?t')"
    using assms(1,5-7) by (rule img_add_sse_eq)
  moreover have "img_add_nsu width height t = Inr ?t'"
    using assms(5-7) by (rule img_add_nsu_eq)
  moreover have "length (bufC ?t') = length (bufC t)"
    by (rule length_range_sum)
  moreover have "\<forall>k. unat (width * height) \<le> k \<and> k < length (bufC t) \<longrightarrow>
                     bufC ?t' ! k = bufC t ! k"
    by (simp add: nth_range_sum)
  ultimately show "\<exists>t'. img_add_sse width height t = Some (Inr t') \<and>
               img_add_nsu width height t = Inr t' \<and>
               length (bufC t') = length (bufC t) \<and>
               (\<forall>k. unat (width * height) \<le> k \<and> k < length (bufC t) \<longrightarrow>
                     bufC t' ! k = bufC t ! k)"
    by blast
qed

theorem C4_witness:
  "img_add_kr_sse 16 1 \<lparr>bufA = replicate 16 200, bufB = replicate 16 100, bufC = replicate 16 0\<rparr>
     = Some (img_add_kr_nsu 16 1
         \<lparr>bufA = replicate 16 200, bufB = replicate 16 100, bufC = replicate 16 0\<rparr>)
   \<and> img_add_sse 16 1 \<lparr>bufA = replicate 16 200, bufB = replicate 16 100, bufC = replicate 16 0\<rparr>
     = Some (img_add_nsu 16 1
         \<lparr>bufA = replicate 16 200, bufB = replicate 16 100, bufC = replicate 16 0\<rparr>)"
proof -
  let ?s = "\<lparr>bufA = replicate 16 200, bufB = replicate 16 100, bufC = replicate 16 (0 :: u8)\<rparr>"
  let ?t = "\<lparr>bufA = replicate 16 200, bufB = replicate 16 100, bufC = replicate 16 (0 :: u16)\<rparr>"
  have n: "unat (16 * 1 :: u32) = 16" by simp
  have "16 dvd unat (16 * 1 :: u32)"
    "unat (16 * 1 :: u32) \<le> length (bufA ?s)" "unat (16 * 1 :: u32) \<le> length (bufB ?s)"
    "unat (16 * 1 :: u32) \<le> length (bufC ?s)"
    "unat (16 * 1 :: u32) \<le> length (bufA ?t)" "unat (16 * 1 :: u32) \<le> length (bufB ?t)"
    "unat (16 * 1 :: u32) \<le> length (bufC ?t)"
    unfolding n by simp_all
  from C4_sse_equals_nsu [OF this] show ?thesis by auto
qed

text \<open>
  C5. For \<open>width = 4\<close>, \<open>height = 1\<close>, \<open>A = [10, 250, 0, 255]\<close> and \<open>B = [20, 10, 0, 1]\<close>
  the saturating kernel leaves \<open>C = [30, 255, 0, 255]\<close> and the widening kernel leaves
  \<open>C = [30, 260, 0, 256]\<close>, whatever \<open>C\<close> held before.
\<close>

theorem C5_concrete_scenario:
  "img_add_kr_nsu 4 1 \<lparr>bufA = [10, 250, 0, 255], bufB = [20, 10, 0, 1], bufC = [c0, c1, c2, c3]\<rparr>
     = Inr \<lparr>bufA = [10, 250, 0, 255], bufB = [20, 10, 0, 1], bufC = [30, 255, 0, 255]\<rparr>
   \<and> img_add_nsu 4 1 \<lparr>bufA = [10, 250, 0, 255], bufB = [20, 10, 0, 1], bufC = [d0, d1, d2, d3]\<rparr>
     = Inr \<lparr>bufA = [10, 250, 0, 255], bufB = [20, 10, 0, 1], bufC = [30, 260, 0, 256]\<rparr>"
proof -
  have u: "[0..<4] = [0, 1, 2, 3]"
    by (simp add: upt_rec)
  have "kr_nsu_pixel 10 20 = 30" "kr_nsu_pixel 250 10 = 255" "kr_nsu_pixel 0 0 = 0"
    "kr_nsu_pixel 255 1 = 255"
    by (simp_all add: kr_nsu_pixel_def)
  moreover have "nsu_pixel 10 20 = 30" "nsu_pixel 250 10 = 260" "nsu_pixel 0 0 = 0"
    "nsu_pixel 255 1 = 256"
    by (simp_all add: nsu_pixel_def)
  ultimately show ?thesis
    by (simp add: img_add_kr_nsu_eq img_add_nsu_eq range_sum_def u)
qed

text \<open>
  C6. When \<open>width * height\<close> is 0, each of the six variants ends and returns the state it
  was given: nothing is written. This holds for buffers of any capacity, in particular
  for empty ones, where any read or write would end the run with \<open>OutOfBounds\<close>; so no
  buffer is accessed at all.
\<close>

theorem C6_zero_pixels:
  fixes s :: "u8 bufs" and t :: "u16 bufs"
  assumes "width * height = 0"
  shows "img_add_kr_nsu width height s = Inr s \<and>
         img_add_kr_sse width height s = Some (Inr s) \<and>
         img_add_kr_avx width height s = Some (Inr s) \<and>
         img_add_nsu width height t = Inr t \<and>
         img_add_sse width height t = Some (Inr t) \<and>
         img_add_avx width height t = Some (Inr t)"
proof -
  have "kr_nsu_loop 0 0 s = Inr s" by (subst kr_nsu_loop.simps) simp
  moreover have "kr_sse_loop 0 0 s = Some (Inr s)" by (subst kr_sse_loop.simps) simp
  moreover have "kr_avx_loop 0 0 s = Some (Inr s)" by (subst kr_avx_loop.simps) simp
  moreover have "nsu_loop 0 0 t = Inr t" by (subst nsu_loop.simps) simp
  moreover have "sse_loop 0 0 0 t = Some (Inr t)" by (subst sse_loop.simps) simp
  moreover have "avx_loop 0 0 0 t = Some (Inr t)" by (subst avx_loop.simps) simp
  ultimately show ?thesis
    using assms
    by (simp add: img_add_kr_nsu_def img_add_kr_sse_def img_add_kr_avx_def
        img_add_nsu_def img_add_sse_def img_add_avx_def)
qed

theorem C6_witness:
  "img_add_kr_nsu 0 7 \<lparr>bufA = [], bufB = [], bufC = []\<rparr> = Inr \<lparr>bufA = [], bufB = [], bufC = []\<rparr> \<and>
   img_add_kr_sse 0 7 \<lparr>bufA = [], bufB = [], bufC = []\<rparr> = Some (Inr \<lparr>bufA = [], bufB = [], bufC = []\<rparr>) \<and>
   img_add_kr_avx 0 7 \<lparr>bufA = [], bufB = [], bufC = []\<rparr> = Some (Inr \<lparr>bufA = [], bufB = [], bufC = []\<rparr>) \<and>
   img_add_nsu 0 7 \<lparr>bufA = [], bufB = [], bufC = []\<rparr> = Inr \<lparr>bufA = [], bufB = [], bufC = []\<rparr> \<and>
   img_add_sse 0 7 \<lparr>bufA = [], bufB = [], bufC = []\<rparr> = Some (Inr \<lparr>bufA = [], bufB = [], bufC = []\<rparr>) \<and>
   img_add_avx 0 7 \<lparr>bufA = [], bufB = [], bufC = []\<rparr> = Some (Inr \<lparr>bufA = [], bufB = [], bufC = []\<rparr>)"
proof -
  have "(0 :: u32) * 7 = 0" by simp
  from C6_zero_pixels [OF this] show ?thesis by blast
qed







text \<open>
  C9 (amended). With \<open>N = (width * height) mod 2^32\<close>, the count the code computes (the
  product itself whenever it is below \<open>2^32\<close>): on the same inputs \<open>A\<close> and \<open>B\<close>, with every
  buffer holding at least \<open>N\<close> elements, the output of the plain saturating kernel is the
  output of the plain widening kernel clamped to 255:
  \<open>img_add_kr_nsu(A, B)[i] = min(img_add_nsu(A, B)[i], 255)\<close> for every \<open>i\<close> in \<open>[0, N)\<close>.
\<close>

theorem C9_saturating_is_clamped_widening:
  fixes width height :: u32 and A B C :: "u8 list" and D :: "u16 list" and N :: nat
  defines "N \<equiv> (unat width * unat height) mod 2 ^ 32"
  assumes "N \<le> length A" "N \<le> length B" and "N \<le> length C" "N \<le> length D"
  shows "\<exists>s t. img_add_kr_nsu width height \<lparr>bufA = A, bufB = B, bufC = C\<rparr> = Inr s \<and>
               img_add_nsu width height \<lparr>bufA = A, bufB = B, bufC = D\<rparr> = Inr t \<and>
               (\<forall>i < N. unat (bufC s ! i) = min (unat (bufC t ! i)) 255)"
proof -
  have n: "unat (width * height) = N"
    by (simp add: N_def unat_word_ariths)
  let ?s = "range_sum kr_nsu_pixel 0 N \<lparr>bufA = A, bufB = B, bufC = C\<rparr>"
  let ?t = "range_sum nsu_pixel 0 N \<lparr>bufA = A, bufB = B, bufC = D\<rparr>"
  have "img_add_kr_nsu width height \<lparr>bufA = A, bufB = B, bufC = C\<rparr> = Inr ?s"
    using assms(2-5) by (simp add: img_add_kr_nsu_eq n)
  moreover have "img_add_nsu width height \<lparr>bufA = A, bufB = B, bufC = D\<rparr> = Inr ?t"
    using assms(2-5) by (simp add: img_add_nsu_eq n)
  moreover have "\<forall>i < N. unat (bufC ?s ! i) = min (unat (bufC ?t ! i)) 255"
    using assms(4,5) by (simp add: nth_range_sum unat_kr_nsu_pixel unat_nsu_pixel)
  ultimately show ?thesis by blast
qed

theorem C9_witness:
  "\<exists>s t. img_add_kr_nsu 2 1 \<lparr>bufA = [250, 1], bufB = [10, 2], bufC = [7, 7]\<rparr> = Inr s \<and>
         img_add_nsu 2 1 \<lparr>bufA = [250, 1], bufB = [10, 2], bufC = [7, 7]\<rparr> = Inr t \<and>
         unat (bufC s ! 0) = min (unat (bufC t ! 0)) 255 \<and>
         unat (bufC s ! 1) = min (unat (bufC t ! 1)) 255"
proof -
  have n: "(unat (2 :: u32) * unat (1 :: u32)) mod 2 ^ 32 = 2" by simp
  have "(unat (2 :: u32) * unat (1 :: u32)) mod 2 ^ 32 \<le> length [250, 1 :: u8]"
    "(unat (2 :: u32) * unat (1 :: u32)) mod 2 ^ 32 \<le> length [10, 2 :: u8]"
    "(unat (2 :: u32) * unat (1 :: u32)) mod 2 ^ 32 \<le> length [7, 7 :: u8]"
    "(unat (2 :: u32) * unat (1 :: u32)) mod 2 ^ 32 \<le> length [7, 7 :: u16]"
    unfolding n by simp_all
  from C9_saturating_is_clamped_widening [OF this, unfolded n] obtain s t
    where r: "img_add_kr_nsu 2 1 \<lparr>bufA = [250, 1], bufB = [10, 2], bufC = [7, 7]\<rparr> = Inr s"
      "img_add_nsu 2 1 \<lparr>bufA = [250, 1], bufB = [10, 2], bufC = [7, 7]\<rparr> = Inr t"
      and c: "\<And>i. i < 2 \<Longrightarrow> unat (bufC s ! i) = min (unat (bufC t ! i)) 255"
    by blast
  from c [of 0] c [of 1]
  have "unat (bufC s ! 0) = min (unat (bufC t ! 0)) 255 \<and>
        unat (bufC s ! 1) = min (unat (bufC t ! 1)) 255"
    by simp
  with r show ?thesis by blast
qed

text \<open>
  C9 as stated fails where the product reaches \<open>2^32\<close>. With \<open>width = height = 65536\<close>
  and inputs of \<open>2^32\<close> elements (\<open>A\<close> all 1, \<open>B\<close> all 2), an 8-bit \<open>C\<close> that holds 7 and a
  16-bit \<open>C\<close> that holds 9, both kernels return their state as it was: the saturating
  output at index 0 is 7 and the widening output clamped to 255 is 9.
\<close>

theorem C9_counterexample:
  "unat (65536 :: u32) * unat (65536 :: u32) = 4294967296 \<and>
   bufA (big_image (7 :: u8)) = bufA (big_image (9 :: u16)) \<and>
   bufB (big_image (7 :: u8)) = bufB (big_image (9 :: u16)) \<and>
   length (bufA (big_image (7 :: u8))) = 4294967296 \<and>
   length (bufB (big_image (7 :: u8))) = 4294967296 \<and>
   length (bufC (big_image (7 :: u8))) = 4294967296 \<and>
   length (bufC (big_image (9 :: u16))) = 4294967296 \<and>
   img_add_kr_nsu 65536 65536 (big_image 7) = Inr (big_image 7) \<and>
   img_add_nsu 65536 65536 (big_image 9) = Inr (big_image 9) \<and>
   unat (bufC (big_image (7 :: u8)) ! 0) = 7 \<and>
   min (unat (bufC (big_image (9 :: u16)) ! 0)) 255 = 9 \<and>
   unat (bufC (big_image (7 :: u8)) ! 0) \<noteq> min (unat (bufC (big_image (9 :: u16)) ! 0)) 255"
proof -
  have "bufA (big_image (7 :: u8)) = bufA (big_image (9 :: u16))"
    "bufB (big_image (7 :: u8)) = bufB (big_image (9 :: u16))"
    by (simp_all add: big_image_def)
  moreover have "unat (65536 :: u32) * unat (65536 :: u32) = 4294967296" by simp
  ultimately show ?thesis
    by (simp add: big_image_simps img_add_kr_nsu_65536 img_add_nsu_65536)
qed

text \<open>
  C10. The pixel count is computed in 32-bit unsigned arithmetic: it is
  \<open>(width * height) mod 2^32\<close>. A plain kernel called on buffers that hold at least that
  many elements returns, having set exactly the elements of \<open>C\<close> below that count and left
  all others as they were; so when the mathematical product is \<open>2^32\<close> or more, fewer
  elements than \<open>width * height\<close> are processed. With \<open>width = height = 2^16\<close> nothing is
  processed at all.
\<close>

theorem C10_pixel_count_wraps:
  fixes s :: "u8 bufs" and t :: "u16 bufs"
  assumes "(unat width * unat height) mod 2 ^ 32 \<le> length (bufA s)"
    and "(unat width * unat height) mod 2 ^ 32 \<le> length (bufB s)"
    and "(unat width * unat height) mod 2 ^ 32 \<le> length (bufC s)"
    and "(unat width * unat height) mod 2 ^ 32 \<le> length (bufA t)"
    and "(unat width * unat height) mod 2 ^ 32 \<le> length (bufB t)"
    and "(unat width * unat height) mod 2 ^ 32 \<le> length (bufC t)"
  shows "unat (width * height) = (unat width * unat height) mod 2 ^ 32 \<and>
         (\<exists>s'. img_add_kr_nsu width height s = Inr s' \<and>
               (\<forall>k < length (bufC s).
                  bufC s' ! k = (if k < (unat width * unat height) mod 2 ^ 32
                                 then kr_nsu_pixel (bufA s ! k) (bufB s ! k) else bufC s ! k))) \<and>
         (\<exists>t'. img_add_nsu width height t = Inr t' \<and>
               (\<forall>k < length (bufC t).
                  bufC t' ! k = (if k < (unat width * unat height) mod 2 ^ 32
                                 then nsu_pixel (bufA t ! k) (bufB t ! k) else bufC t ! k))) \<and>
         (2 ^ 32 \<le> unat width * unat height \<longrightarrow>
            (unat width * unat height) mod 2 ^ 32 < unat width * unat height) \<and>
         img_add_kr_nsu 65536 65536 s = Inr s \<and> img_add_nsu 65536 65536 t = Inr t"
proof (intro conjI)
  show n: "unat (width * height) = (unat width * unat height) mod 2 ^ 32"
    by (simp add: unat_word_ariths)
  let ?s' = "range_sum kr_nsu_pixel 0 (unat (width * height)) s"
  let ?t' = "range_sum nsu_pixel 0 (unat (width * height)) t"
  have "img_add_kr_nsu width height s = Inr ?s'"
    using assms(1-3) unfolding n [symmetric] by (rule img_add_kr_nsu_eq)
  moreover have "\<forall>k < length (bufC s).
                  bufC ?s' ! k = (if k < (unat width * unat height) mod 2 ^ 32
                                 then kr_nsu_pixel (bufA s ! k) (bufB s ! k) else bufC s ! k)"
    unfolding n [symmetric] by (simp add: nth_range_sum)
  ultimately show "\<exists>s'. img_add_kr_nsu width height s = Inr s' \<and>
               (\<forall>k < length (bufC s).
                  bufC s' ! k = (if k < (unat width * unat height) mod 2 ^ 32
                                 then kr_nsu_pixel (bufA s ! k) (bufB s ! k) else bufC s ! k))"
    by blast
  have "img_add_nsu width height t = Inr ?t'"
    using assms(4-6) unfolding n [symmetric] by (rule img_add_nsu_eq)
  moreover have "\<forall>k < length (bufC t).
                  bufC ?t' ! k = (if k < (unat width * unat height) mod 2 ^ 32
                                 then nsu_pixel (bufA t ! k) (bufB t ! k) else bufC t ! k)"
    unfolding n [symmetric] by (simp add: nth_range_sum)
  ultimately show "\<exists>t'. img_add_nsu width height t = Inr t' \<and>
               (\<forall>k < length (bufC t).
                  bufC t' ! k = (if k < (unat width * unat height) mod 2 ^ 32
                                 then nsu_pixel (bufA t ! k) (bufB t ! k) else bufC t ! k))"
    by blast
  show "2 ^ 32 \<le> unat width * unat height \<longrightarrow>
            (unat width * unat height) mod 2 ^ 32 < unat width * unat height"
  proof
    assume "2 ^ 32 \<le> unat width * unat height"
    moreover have "(unat width * unat height) mod 2 ^ 32 < (2 ^ 32 :: nat)"
      by (rule mod_less_divisor) simp
    ultimately show "(unat width * unat height) mod 2 ^ 32 < unat width * unat height"
      by (rule less_le_trans [rotated])
  qed
  have z: "(65536 :: u32) * 65536 = 0" by simp
  show "img_add_kr_nsu 65536 65536 s = Inr s"
    unfolding img_add_kr_nsu_def Let_def z by (subst kr_nsu_loop.simps) simp
  show "img_add_nsu 65536 65536 t = Inr t"
    unfolding img_add_nsu_def Let_def z by (subst nsu_loop.simps) simp
qed

theorem C10_witness:
  "unat (65536 * 65537 :: u32) = 65536 \<and>
   (\<exists>s'. img_add_kr_nsu 65536 65537
           \<lparr>bufA = replicate 65537 1, bufB = replicate 65537 2, bufC = replicate 65537 7\<rparr> = Inr s' \<and>
         bufC s' ! 0 = 3 \<and> bufC s' ! 65535 = 3 \<and> bufC s' ! 65536 = 7) \<and>
   (\<exists>t'. img_add_nsu 65536 65537
           \<lparr>bufA = replicate 65537 1, bufB = replicate 65537 2, bufC = replicate 65537 7\<rparr> = Inr t' \<and>
         bufC t' ! 0 = 3 \<and> bufC t' ! 65535 = 3 \<and> bufC t' ! 65536 = 7)"
proof -
  let ?s = "\<lparr>bufA = replicate 65537 1, bufB = replicate 65537 2, bufC = replicate 65537 (7 :: u8)\<rparr>"
  let ?t = "\<lparr>bufA = replicate 65537 1, bufB = replicate 65537 2, bufC = replicate 65537 (7 :: u16)\<rparr>"
  have m: "(unat (65536 :: u32) * unat (65537 :: u32)) mod 2 ^ 32 = 65536" by simp
  have p: "kr_nsu_pixel 1 2 = 3" "nsu_pixel 1 2 = 3"
    by (simp_all add: kr_nsu_pixel_def nsu_pixel_def)
  have "(unat (65536 :: u32) * unat (65537 :: u32)) mod 2 ^ 32 \<le> length (bufA ?s)"
    "(unat (65536 :: u32) * unat (65537 :: u32)) mod 2 ^ 32 \<le> length (bufB ?s)"
    "(unat (65536 :: u32) * unat (65537 :: u32)) mod 2 ^ 32 \<le> length (bufC ?s)"
    "(unat (65536 :: u32) * unat (65537 :: u32)) mod 2 ^ 32 \<le> length (bufA ?t)"
    "(unat (65536 :: u32) * unat (65537 :: u32)) mod 2 ^ 32 \<le> length (bufB ?t)"
    "(unat (65536 :: u32) * unat (65537 :: u32)) mod 2 ^ 32 \<le> length (bufC ?t)"
    unfolding m by simp_all
  note th = C10_pixel_count_wraps [OF this]
  have n: "unat (65536 * 65537 :: u32) = 65536"
    using th [THEN conjunct1] unfolding m .
  from th [THEN conjunct2, THEN conjunct1] obtain s'
    where s: "img_add_kr_nsu 65536 65537 ?s = Inr s'"
      "\<And>k. k < 65537 \<Longrightarrow> bufC s' ! k =
          (if k < 65536 then kr_nsu_pixel (bufA ?s ! k) (bufB ?s ! k) else bufC ?s ! k)"
    unfolding m by auto
  from th [THEN conjunct2, THEN conjunct2, THEN conjunct1] obtain t'
    where t: "img_add_nsu 65536 65537 ?t = Inr t'"
      "\<And>k. k < 65537 \<Longrightarrow> bufC t' ! k =
          (if k < 65536 then nsu_pixel (bufA ?t ! k) (bufB ?t ! k) else bufC ?t ! k)"
    unfolding m by auto
  from s(2) [of 0] s(2) [of 65535] s(2) [of 65536] p
  have "bufC s' ! 0 = 3 \<and> bufC s' ! 65535 = 3 \<and> bufC s' ! 65536 = 7" by simp
  moreover from t(2) [of 0] t(2) [of 65535] t(2) [of 65536] p
  have "bufC t' ! 0 = 3 \<and> bufC t' ! 65535 = 3 \<and> bufC t' ! 65536 = 7" by simp
  ultimately show ?thesis using n s(1) t(1) by blast
qed

end
